theory Spec2Isabelle
  imports Main "HOL-Library.Word"
begin

section \<open>Outcomes of a call\<close>

text \<open>
  A Go function of the resolver returns a value and an \<open>error\<close>, or panics. An error is
  either built by the resolver itself (the \<open>fmt.Errorf\<close> of the HTTP status check) or handed
  up unchanged from a library call.
\<close>

datatype error =
    HttpStatusError string   \<comment> \<open>\<open>fmt.Errorf("Http get Error status: %s", resp.Status)\<close>, the message\<close>
  | LibError string          \<comment> \<open>an error returned by a library or collaborator call\<close>

datatype 'a result =
    Ok 'a
  | Err error                \<comment> \<open>\<open>return nil, err\<close>\<close>
  | Panic string             \<comment> \<open>a Go panic: \<open>semver.MustParse\<close>, a nil pointer dereference\<close>

section \<open>Package model\<close>

datatype ResolverType = OCI | HTTP

record Checksums =
  Sha256 :: string

record Dependency =
  Dep_Uri :: string
  Dep_Checksums :: "Checksums option"
  Dep_Name :: string
  Dep_ProjectFileUri :: string

text \<open>
  \<open>Dependencies\<close> is a Go map from alias to \<open>Dependency\<close>; it is kept as the list of its
  entries in the order a \<open>range\<close> statement visits them, which Go leaves unspecified.
\<close>

record Metadata =
  Name :: string
  PackageUri :: string
  Version :: string
  PackageZipUrl :: string
  PackageZipChecksums :: Checksums
  Authors :: "string list"
  Dependencies :: "(string \<times> Dependency) list"
  ResolverType :: ResolverType
  PlainHttp :: bool
  Checksum :: string
  Source :: string

section \<open>Libraries and collaborators\<close>

text \<open>
  \<open>net/url\<close>, \<open>Masterminds/semver\<close>, \<open>net/http\<close>, \<open>encoding/json\<close>, \<open>crypto/sha256\<close>, \<open>os\<close>
  and the packages \<open>pklutils\<close> and \<open>registry\<close> are called by the resolver and are not part of
  it. They are the fields of an environment that every function of the model takes.
\<close>

record URL =
  Scheme :: string
  Opaque :: string
  User :: string
  Host :: string
  Path :: string
  RawPath :: string
  OmitHost :: bool
  ForceQuery :: bool
  RawQuery :: string
  Fragment :: string

record SemVersion =
  Major :: "64 word"
  Minor :: "64 word"
  Patch :: "64 word"
  Prerelease :: string
  BuildMetadata :: string

record Response =
  StatusCode :: int
  Status :: string
  Body :: "error + string"   \<comment> \<open>what \<open>io.ReadAll(resp.Body)\<close> gives\<close>

record Client =
  ClientPlainHttp :: bool

record PullResult =
  MetadataData :: string
  ArchiveData :: string

datatype stat_error = ErrNotExist | ErrPermission | ErrOther string

record env =
  url_Parse :: "string \<Rightarrow> error + URL"
  url_String :: "URL \<Rightarrow> string"
  semver_NewVersion :: "string \<Rightarrow> error + SemVersion"
  semver_GreaterThan :: "SemVersion \<Rightarrow> SemVersion \<Rightarrow> bool"
  http_Get :: "string \<Rightarrow> error + Response"
  json_Unmarshal :: "string \<Rightarrow> error + Metadata option"
  sha256_hex :: "string \<Rightarrow> string"
  PklUriToRef :: "string \<Rightarrow> error + string"
  registry_Pull :: "Client \<Rightarrow> string \<Rightarrow> bool \<Rightarrow> error + PullResult"
  PklGetRelativePath :: "string \<Rightarrow> URL \<Rightarrow> string"
  os_Stat :: "string \<Rightarrow> stat_error option"

text \<open>
  \<open>json.Unmarshal(body, &metadata)\<close> with \<open>metadata\<close> a nil \<open>*Metadata\<close>: the JSON
  \<open>null\<close> leaves the pointer nil (\<open>None\<close>). The fields tagged \<open>json:"-"\<close> are never read from
  the document and keep their zero values.
\<close>

definition json_hidden_zero :: "Metadata \<Rightarrow> Metadata" where
  "json_hidden_zero m = m\<lparr>ResolverType := OCI, PlainHttp := False, Checksum := [], Source := []\<rparr>"

definition unmarshal_Metadata :: "env \<Rightarrow> string \<Rightarrow> error + Metadata option" where
  "unmarshal_Metadata E body =
     (case json_Unmarshal E body of
        Inl err \<Rightarrow> Inl err
      | Inr None \<Rightarrow> Inr None
      | Inr (Some m) \<Rightarrow> Inr (Some (json_hidden_zero m)))"

section \<open>String functions of the standard library\<close>

fun HasPrefix :: "string \<Rightarrow> string \<Rightarrow> bool" where
  "HasPrefix s [] = True"
| "HasPrefix [] (p # ps) = False"
| "HasPrefix (c # s) (p # ps) = (c = p \<and> HasPrefix s ps)"

definition HasSuffix :: "string \<Rightarrow> string \<Rightarrow> bool" where
  "HasSuffix s suffix = HasPrefix (rev s) (rev suffix)"

fun Contains :: "string \<Rightarrow> string \<Rightarrow> bool" where
  "Contains [] substr = (substr = [])"
| "Contains (c # s) substr = (HasPrefix (c # s) substr \<or> Contains s substr)"

text \<open>\<open>strings.Replace(s, old, new, 1)\<close>: the first occurrence of \<open>old\<close> only.\<close>

fun Replace1 :: "string \<Rightarrow> string \<Rightarrow> string \<Rightarrow> string" where
  "Replace1 [] old new = (if old = [] then new else [])"
| "Replace1 (c # s) old new =
     (if HasPrefix (c # s) old then new @ drop (length old) (c # s)
      else c # Replace1 s old new)"

text \<open>\<open>fmt.Sprintf("%x", n)\<close> for an unsigned \<open>n\<close>: lower-case hexadecimal, no padding.\<close>

definition hex_digit :: "nat \<Rightarrow> char" where
  "hex_digit d = ''0123456789abcdef'' ! d"

function format_x :: "nat \<Rightarrow> string" where
  "format_x n = (if n < 16 then [hex_digit n] else format_x (n div 16) @ [hex_digit (n mod 16)])"
  by pat_completeness auto
termination
  by (relation "measure id") auto

declare format_x.simps [simp del]

text \<open>\<open>fmt.Sprintf("%d", n)\<close>, the decimal rendering, for comparison.\<close>

function format_d :: "nat \<Rightarrow> string" where
  "format_d n = (if n < 10 then [hex_digit n] else format_d (n div 10) @ [hex_digit (n mod 10)])"
  by pat_completeness auto
termination
  by (relation "measure id") auto

declare format_d.simps [simp del]

section \<open>Major-version package identity\<close>

text \<open>
  \<open>Resolver.MajorVersionPackage\<close>. The receiver is not used. \<open>semver.MustParse\<close> panics
  where \<open>semver.NewVersion\<close> returns an error.
\<close>

definition MustParse :: "env \<Rightarrow> string \<Rightarrow> SemVersion result" where
  "MustParse E v =
     (case semver_NewVersion E v of
        Inl err \<Rightarrow> Panic ''semver.MustParse''
      | Inr parsed \<Rightarrow> Ok parsed)"

definition MajorVersionPackage :: "env \<Rightarrow> Metadata \<Rightarrow> string result" where
  "MajorVersionPackage E metadata =
     (case url_Parse E (PackageUri metadata) of
        Inl err \<Rightarrow> Err err
      | Inr baseUri \<Rightarrow>
          (let mapUri = baseUri\<lparr>Scheme := ''package''\<rparr>;
               mapUri = mapUri\<lparr>Path := Replace1 (Path mapUri) (CHR ''@'' # Version metadata) ''''\<rparr>
           in case MustParse E (Version metadata) of
                Panic p \<Rightarrow> Panic p
              | Err err \<Rightarrow> Err err
              | Ok versionParsed \<Rightarrow>
                  (let majorVersion = CHR ''@'' # format_x (unat (Major versionParsed))
                   in Ok (url_String E (mapUri\<lparr>Path := Path mapUri @ majorVersion\<rparr>)))))"

section \<open>Deduplication\<close>

text \<open>
  \<open>Resolver.Deduplicate\<close>, first loop: \<open>dependecies\<close> is the list of the entries of the input
  map in the order the \<open>range\<close> visits them; the keys are not read.
\<close>

fun Deduplicate_group ::
  "env \<Rightarrow> (string \<times> Metadata) list \<Rightarrow> (string \<rightharpoonup> Metadata) \<Rightarrow> (string \<rightharpoonup> Metadata) result"
where
  "Deduplicate_group E [] versioned = Ok versioned"
| "Deduplicate_group E ((u, dep) # rest) versioned =
     (case MajorVersionPackage E dep of
        Err err \<Rightarrow> Err err
      | Panic p \<Rightarrow> Panic p
      | Ok depVersion \<Rightarrow>
          (case versioned depVersion of
             None \<Rightarrow> Deduplicate_group E rest (versioned(depVersion \<mapsto> dep))
           | Some existing \<Rightarrow>
               (case MustParse E (Version dep) of
                  Panic p \<Rightarrow> Panic p
                | Err err \<Rightarrow> Err err
                | Ok verDep \<Rightarrow>
                    (case MustParse E (Version existing) of
                       Panic p \<Rightarrow> Panic p
                     | Err err \<Rightarrow> Err err
                     | Ok verExists \<Rightarrow>
                         (if semver_GreaterThan E verDep verExists
                          then Deduplicate_group E rest (versioned(depVersion \<mapsto> dep))
                          else Deduplicate_group E rest versioned)))))"

text \<open>
  Second loop: \<open>order\<close> is the list of the keys of \<open>versioned\<close> in the order the \<open>range\<close>
  visits them.
\<close>

fun Deduplicate_rekey ::
  "(string \<rightharpoonup> Metadata) \<Rightarrow> string list \<Rightarrow> (string \<rightharpoonup> Metadata) \<Rightarrow> (string \<rightharpoonup> Metadata)"
where
  "Deduplicate_rekey versioned [] result = result"
| "Deduplicate_rekey versioned (k # order) result =
     (case versioned k of
        None \<Rightarrow> Deduplicate_rekey versioned order result
      | Some dep \<Rightarrow> Deduplicate_rekey versioned order (result(PackageUri dep \<mapsto> dep)))"

definition Deduplicate ::
  "env \<Rightarrow> (string \<times> Metadata) list \<Rightarrow> string list \<Rightarrow> (string \<rightharpoonup> Metadata) result"
where
  "Deduplicate E dependecies order =
     (case Deduplicate_group E dependecies Map.empty of
        Err err \<Rightarrow> Err err
      | Panic p \<Rightarrow> Panic p
      | Ok versioned \<Rightarrow> Ok (Deduplicate_rekey versioned order Map.empty))"

text \<open>A list of keys is an order in which \<open>range\<close> can visit a map: every key once.\<close>

definition range_order :: "string list \<Rightarrow> (string \<rightharpoonup> Metadata) \<Rightarrow> bool" where
  "range_order ks m = (distinct ks \<and> set ks = dom m)"

section \<open>Transports\<close>

record OciResolver =
  oci_client :: Client
  oci_plainClient :: Client

record HttpResolver =
  http_plainHttp :: bool

text \<open>
  \<open>NewOciResolver\<close> and \<open>NewHttpResolver\<close>, with \<open>plain\<close> for \<open>appConfig.PlainHttp\<close>. The
  package \<open>registry\<close> is not part of the resolver: a \<open>Client\<close> is known by the option
  \<open>WithPlainHttp\<close> it was made with, and the case that \<open>registry.NewClient\<close> fails is left
  out.
\<close>

definition NewOciResolver :: "bool \<Rightarrow> OciResolver" where
  "NewOciResolver plain =
     \<lparr>oci_client = \<lparr>ClientPlainHttp = plain\<rparr>, oci_plainClient = \<lparr>ClientPlainHttp = True\<rparr>\<rparr>"

definition NewHttpResolver :: "bool \<Rightarrow> HttpResolver" where
  "NewHttpResolver plain = \<lparr>http_plainHttp = plain\<rparr>"

text \<open>The client an \<open>OciResolver\<close> call pulls with.\<close>

definition OciResolver_metadata_client :: "OciResolver \<Rightarrow> bool \<Rightarrow> Client" where
  "OciResolver_metadata_client r plain = (if plain then oci_plainClient r else oci_client r)"

definition OciResolver_archive_client :: "OciResolver \<Rightarrow> Metadata \<Rightarrow> Client" where
  "OciResolver_archive_client r metadata =
     (if PlainHttp metadata then oci_plainClient r else oci_client r)"

definition OciResolver_ResolveMetadata ::
  "env \<Rightarrow> OciResolver \<Rightarrow> string \<Rightarrow> bool \<Rightarrow> Metadata result"
where
  "OciResolver_ResolveMetadata E r uri plain =
     (case PklUriToRef E uri of
        Inl err \<Rightarrow> Err err
      | Inr ref \<Rightarrow>
          (case registry_Pull E (OciResolver_metadata_client r plain) ref False of
             Inl err \<Rightarrow> Err err
           | Inr pulled \<Rightarrow>
               (case unmarshal_Metadata E (MetadataData pulled) of
                  Inl err \<Rightarrow> Err err
                | Inr None \<Rightarrow> Panic ''nil pointer dereference''
                | Inr (Some metadata) \<Rightarrow>
                    Ok (metadata\<lparr>ResolverType := OCI,
                                 Source := MetadataData pulled,
                                 Checksum := sha256_hex E (MetadataData pulled)\<rparr>))))"

definition OciResolver_ResolveArchive :: "env \<Rightarrow> OciResolver \<Rightarrow> Metadata \<Rightarrow> string result" where
  "OciResolver_ResolveArchive E r metadata =
     (case PklUriToRef E (PackageUri metadata) of
        Inl err \<Rightarrow> Err err
      | Inr ref \<Rightarrow>
          (case registry_Pull E (OciResolver_archive_client r metadata) ref True of
             Inl err \<Rightarrow> Err err
           | Inr pulled \<Rightarrow> Ok (ArchiveData pulled)))"

text \<open>
  \<open>HttpResolver.ResolveMetadata\<close>. The digest is computed before the error of
  \<open>io.ReadAll\<close> is looked at, which changes nothing that is returned.
\<close>

definition HttpResolver_ResolveMetadata ::
  "env \<Rightarrow> HttpResolver \<Rightarrow> string \<Rightarrow> bool \<Rightarrow> Metadata result"
where
  "HttpResolver_ResolveMetadata E r uri plain =
     (case url_Parse E uri of
        Inl err \<Rightarrow> Err err
      | Inr u \<Rightarrow>
          (let u = u\<lparr>Scheme := (if http_plainHttp r \<or> plain then ''http'' else ''https'')\<rparr>
           in case http_Get E (url_String E u) of
                Inl err \<Rightarrow> Err err
              | Inr resp \<Rightarrow>
                  (if StatusCode resp > 300
                   then Err (HttpStatusError (''Http get Error status: '' @ Status resp))
                   else (case Body resp of
                           Inl err \<Rightarrow> Err err
                         | Inr body \<Rightarrow>
                             (case unmarshal_Metadata E body of
                                Inl err \<Rightarrow> Err err
                              | Inr None \<Rightarrow> Panic ''nil pointer dereference''
                              | Inr (Some metadata) \<Rightarrow>
                                  Ok (metadata\<lparr>ResolverType := HTTP,
                                               Source := body,
                                               PlainHttp := plain,
                                               Checksum := sha256_hex E body\<rparr>))))))"

definition HttpResolver_ResolveArchive :: "env \<Rightarrow> HttpResolver \<Rightarrow> Metadata \<Rightarrow> string result" where
  "HttpResolver_ResolveArchive E r metadata =
     (case http_Get E (PackageZipUrl metadata) of
        Inl err \<Rightarrow> Err err
      | Inr resp \<Rightarrow>
          (case Body resp of
             Inl err \<Rightarrow> Err err
           | Inr body \<Rightarrow> Ok body))"

section \<open>Resolution engine\<close>

text \<open>
  The \<open>Resolver\<close> with its memo cache. \<open>fetchLog\<close> is not a field of the Go struct: it
  records, in order, the URI of every \<open>ResolveMetadata\<close> call that \<open>Resolve\<close> makes, so
  that the number of fetches of a URI can be stated.
\<close>

record Resolver =
  ociResolver :: OciResolver
  httpResolver :: HttpResolver
  basePath :: string
  cache :: "string \<rightharpoonup> Metadata"
  fetchLog :: "string list"

text \<open>The transport choice and the call of lines 170 to 182 of \<open>Resolve\<close>.\<close>

definition Resolve_fetch :: "env \<Rightarrow> OciResolver \<Rightarrow> HttpResolver \<Rightarrow> Dependency \<Rightarrow> Metadata result" where
  "Resolve_fetch E oci http dependency =
     (let dependencyName = Dep_Name dependency;
          plain = Contains dependencyName ''.plain''
      in if HasSuffix dependencyName ''.oci''
         then OciResolver_ResolveMetadata E oci (Dep_Uri dependency) plain
         else HttpResolver_ResolveMetadata E http (Dep_Uri dependency) plain)"

text \<open>The back-fill of lines 189 to 192: every dependency gets its map key as \<open>Name\<close>.\<close>

definition backfill_names :: "Metadata \<Rightarrow> Metadata" where
  "backfill_names metadata =
     metadata\<lparr>Dependencies :=
       map (\<lambda>(metadataName, metadataDep). (metadataName, metadataDep\<lparr>Dep_Name := metadataName\<rparr>))
         (Dependencies metadata)\<rparr>"

text \<open>
  \<open>Resolver.Resolve\<close>. The loop over \<open>dependencies\<close> is the recursion on the list, with the
  local \<open>result\<close> as an argument. The recursive call \<open>r.Resolve(metadata.Dependencies)\<close> can
  go on for ever when every metadata document names a new URI, so the depth of the calls is
  bounded by \<open>fuel\<close>, and \<open>None\<close> says that the bound was reached.
\<close>

fun Resolve_loop ::
  "nat \<Rightarrow> env \<Rightarrow> (string \<times> Dependency) list \<Rightarrow> (string \<rightharpoonup> Metadata) \<Rightarrow> Resolver
     \<Rightarrow> ((string \<rightharpoonup> Metadata) result \<times> Resolver) option"
where
  "Resolve_loop fuel E [] result r = Some (Ok result, r)"
| "Resolve_loop 0 E ((k, dependency) # rest) result r =
     (case cache r (Dep_Uri dependency) of
        Some metadata \<Rightarrow> Resolve_loop 0 E rest (result(Dep_Uri dependency \<mapsto> metadata)) r
      | None \<Rightarrow>
          (let r = r\<lparr>fetchLog := fetchLog r @ [Dep_Uri dependency]\<rparr>
           in case Resolve_fetch E (ociResolver r) (httpResolver r) dependency of
                Err err \<Rightarrow> Some (Err err, r)
              | Panic p \<Rightarrow> Some (Panic p, r)
              | Ok fetched \<Rightarrow>
                  (let metadata = backfill_names fetched;
                       r = r\<lparr>cache := (cache r)(Dep_Uri dependency \<mapsto> metadata)\<rparr>;
                       result = result(Dep_Uri dependency \<mapsto> metadata)
                   in if length (Dependencies metadata) > 0 then None
                      else Resolve_loop 0 E rest result r)))"
| "Resolve_loop (Suc fuel) E ((k, dependency) # rest) result r =
     (case cache r (Dep_Uri dependency) of
        Some metadata \<Rightarrow> Resolve_loop (Suc fuel) E rest (result(Dep_Uri dependency \<mapsto> metadata)) r
      | None \<Rightarrow>
          (let r = r\<lparr>fetchLog := fetchLog r @ [Dep_Uri dependency]\<rparr>
           in case Resolve_fetch E (ociResolver r) (httpResolver r) dependency of
                Err err \<Rightarrow> Some (Err err, r)
              | Panic p \<Rightarrow> Some (Panic p, r)
              | Ok fetched \<Rightarrow>
                  (let metadata = backfill_names fetched;
                       r = r\<lparr>cache := (cache r)(Dep_Uri dependency \<mapsto> metadata)\<rparr>;
                       result = result(Dep_Uri dependency \<mapsto> metadata)
                   in if length (Dependencies metadata) > 0
                      then (case Resolve_loop fuel E (Dependencies metadata) Map.empty r of
                              None \<Rightarrow> None
                            | Some (Err err, r) \<Rightarrow> Some (Err err, r)
                            | Some (Panic p, r) \<Rightarrow> Some (Panic p, r)
                            | Some (Ok subs, r) \<Rightarrow> Resolve_loop (Suc fuel) E rest (result ++ subs) r)
                      else Resolve_loop (Suc fuel) E rest result r)))"

definition Resolve ::
  "nat \<Rightarrow> env \<Rightarrow> Resolver \<Rightarrow> (string \<times> Dependency) list
     \<Rightarrow> ((string \<rightharpoonup> Metadata) result \<times> Resolver) option"
where
  "Resolve fuel E r dependencies = Resolve_loop fuel E dependencies Map.empty r"

section \<open>Cache check\<close>

text \<open>\<open>Resolver.Exists\<close>: \<open>Err\<close> is the return \<open>(false, err)\<close>.\<close>

definition Exists :: "env \<Rightarrow> Resolver \<Rightarrow> Metadata \<Rightarrow> bool result" where
  "Exists E r metadata =
     (case url_Parse E (PackageUri metadata) of
        Inl err \<Rightarrow> Err err
      | Inr baseUri \<Rightarrow>
          (let path = PklGetRelativePath E (basePath r) baseUri
           in if os_Stat E path = Some ErrNotExist then Ok False else Ok True))"

section \<open>A concrete environment\<close>

text \<open>
  An environment on which the functions can be run. The network, the JSON decoder, the
  registry and the file system are tables. \<open>sample_url_Parse\<close> and \<open>sample_url_String\<close>
  follow \<open>url.Parse\<close> and \<open>URL.String\<close> of \<open>net/url\<close> step by step (fragment, control
  characters, scheme, query, opaque rest, authority, path) for URIs without percent
  escapes: escapes are not decoded, and the host and the user information are taken as
  they stand, where the library checks them. \<open>sample_NewVersion\<close> reads the versions
  \<open>major.minor.patch\<close> of decimal numbers below \<open>2^64\<close> and refuses every other string,
  also the looser forms that the library reads (a leading \<open>v\<close>, a missing minor or patch, a
  pre-release, build metadata); \<open>sample_GreaterThan\<close> compares such versions number by
  number. Every evaluation below is at strings inside these limits.
\<close>

fun split_first :: "string \<Rightarrow> string \<Rightarrow> (string \<times> string) option" where
  "split_first [] sep = (if sep = [] then Some ([], []) else None)"
| "split_first (c # s) sep =
     (if HasPrefix (c # s) sep then Some ([], drop (length sep) (c # s))
      else (case split_first s sep of
              None \<Rightarrow> None
            | Some (a, b) \<Rightarrow> Some (c # a, b)))"

definition is_digit :: "char \<Rightarrow> bool" where
  "is_digit c = (48 \<le> (of_char c :: nat) \<and> (of_char c :: nat) \<le> 57)"

definition is_alpha :: "char \<Rightarrow> bool" where
  "is_alpha c =
     ((65 \<le> (of_char c :: nat) \<and> (of_char c :: nat) \<le> 90) \<or>
      (97 \<le> (of_char c :: nat) \<and> (of_char c :: nat) \<le> 122))"

definition is_ctl :: "char \<Rightarrow> bool" where
  "is_ctl c = ((of_char c :: nat) < 32 \<or> (of_char c :: nat) = 127)"

definition to_lower :: "char \<Rightarrow> char" where
  "to_lower c =
     (if 65 \<le> (of_char c :: nat) \<and> (of_char c :: nat) \<le> 90
      then char_of ((of_char c :: nat) + 32) else c)"

text \<open>
  \<open>getScheme\<close> of \<open>net/url\<close>: \<open>seen\<close> is the part already read, \<open>rawURL\<close> the whole
  string; the result is the scheme and the rest after the colon.
\<close>

fun getScheme :: "string \<Rightarrow> string \<Rightarrow> string \<Rightarrow> error + string \<times> string" where
  "getScheme rawURL seen [] = Inr ([], rawURL)"
| "getScheme rawURL seen (c # cs) =
     (if is_alpha c then getScheme rawURL (seen @ [c]) cs
      else if is_digit c \<or> c = CHR ''+'' \<or> c = CHR ''-'' \<or> c = CHR ''.''
      then (if seen = [] then Inr ([], rawURL) else getScheme rawURL (seen @ [c]) cs)
      else if c = CHR '':''
      then (if seen = [] then Inl (LibError ''missing protocol scheme'') else Inr (seen, cs))
      else Inr ([], rawURL))"

definition empty_URL :: URL where
  "empty_URL =
     \<lparr>Scheme = [], Opaque = [], User = [], Host = [], Path = [], RawPath = [],
      OmitHost = False, ForceQuery = False, RawQuery = [], Fragment = []\<rparr>"

definition first_segment :: "string \<Rightarrow> string" where
  "first_segment s = takeWhile (\<lambda>c. c \<noteq> CHR ''/'') s"

text \<open>The authority \<open>user@host\<close>, split at its last \<open>@\<close>.\<close>

definition authority_user :: "string \<Rightarrow> string" where
  "authority_user a =
     (if CHR ''@'' \<in> set a then rev (drop 1 (dropWhile (\<lambda>c. c \<noteq> CHR ''@'') (rev a))) else [])"

definition authority_host :: "string \<Rightarrow> string" where
  "authority_host a = rev (takeWhile (\<lambda>c. c \<noteq> CHR ''@'') (rev a))"

definition sample_url_Parse :: "string \<Rightarrow> error + URL" where
  "sample_url_Parse rawURL =
     (let u = takeWhile (\<lambda>c. c \<noteq> CHR ''#'') rawURL;
          frag = drop (Suc (length u)) rawURL
      in if list_ex is_ctl u then Inl (LibError ''invalid control character in URL'')
         else if u = ''*'' then Inr (empty_URL\<lparr>Path := ''*'', Fragment := frag\<rparr>)
         else (case getScheme u [] u of
                 Inl err \<Rightarrow> Inl err
               | Inr (scheme, rest0) \<Rightarrow>
                   (let force = (HasSuffix rest0 ''?'' \<and> count_list rest0 (CHR ''?'') = 1);
                        before = takeWhile (\<lambda>c. c \<noteq> CHR ''?'') rest0;
                        query = (if force then [] else drop (Suc (length before)) rest0);
                        rest = (if force then butlast rest0 else before);
                        url = empty_URL\<lparr>Scheme := map to_lower scheme, ForceQuery := force,
                                        RawQuery := query, Fragment := frag\<rparr>
                    in if HasPrefix rest ''/''
                       then (if HasPrefix rest ''//'' \<and>
                                (if scheme = [] then \<not> HasPrefix rest ''///'' else True)
                             then (let authority = first_segment (drop 2 rest)
                                   in Inr (url\<lparr>User := authority_user authority,
                                              Host := authority_host authority,
                                              Path := drop (length authority) (drop 2 rest)\<rparr>))
                             else if scheme = [] then Inr (url\<lparr>Path := rest\<rparr>)
                             else Inr (url\<lparr>OmitHost := True, Path := rest\<rparr>))
                       else if scheme = []
                       then (if CHR '':'' \<in> set (first_segment rest)
                             then Inl (LibError ''first path segment in URL cannot contain colon'')
                             else Inr (url\<lparr>Path := rest\<rparr>))
                       else Inr (url\<lparr>Opaque := rest\<rparr>))))"

text \<open>
  \<open>escape(s, encodePath)\<close>: letters, digits and \<open>-_.~$&+,/:;=@\<close> stay, every other byte
  becomes \<open>%XX\<close>.
\<close>

definition upper_hex_digit :: "nat \<Rightarrow> char" where
  "upper_hex_digit d = ''0123456789ABCDEF'' ! d"

definition path_byte_stays :: "char \<Rightarrow> bool" where
  "path_byte_stays c = (is_alpha c \<or> is_digit c \<or> c \<in> set ''-_.~$&+,/:;=@'')"

definition escape_path :: "string \<Rightarrow> string" where
  "escape_path s =
     concat (map (\<lambda>c. if path_byte_stays c then [c]
                       else [CHR ''%'', upper_hex_digit ((of_char c :: nat) div 16),
                             upper_hex_digit ((of_char c :: nat) mod 16)]) s)"

definition sample_url_String :: "URL \<Rightarrow> string" where
  "sample_url_String u =
     (let scheme = (if Scheme u = [] then [] else Scheme u @ '':'');
          authority =
            (if Scheme u = [] \<and> Host u = [] \<and> User u = [] then []
             else if OmitHost u \<and> Host u = [] \<and> User u = [] then []
             else (if Host u = [] \<and> Path u = [] \<and> User u = [] then [] else ''//'') @
                  (if User u = [] then [] else User u @ ''@'') @ Host u);
          path = (if Path u = ''*'' then ''*'' else escape_path (Path u));
          slash = (if path = [] then []
                   else if HasPrefix path ''/'' then []
                   else if Host u = [] then [] else ''/'');
          dot = (if scheme = [] \<and> authority = [] \<and> slash = [] \<and>
                    CHR '':'' \<in> set (first_segment path) then ''./'' else [])
      in scheme @
         (if Opaque u = [] then authority @ slash @ dot @ path else Opaque u) @
         (if ForceQuery u then CHR ''?'' # RawQuery u
          else if RawQuery u = [] then [] else CHR ''?'' # RawQuery u) @
         (if Fragment u = [] then [] else CHR ''#'' # Fragment u))"

definition parse_uint :: "string \<Rightarrow> nat option" where
  "parse_uint s =
     (if s = [] then None
      else if list_all is_digit s \<and>
              foldl (\<lambda>n c. 10 * n + (of_char c - 48)) 0 s < (2 :: nat) ^ 64
      then Some (foldl (\<lambda>n c. 10 * n + (of_char c - 48)) 0 s)
      else None)"

definition sample_NewVersion :: "string \<Rightarrow> error + SemVersion" where
  "sample_NewVersion s =
     (case split_first s ''.'' of
        None \<Rightarrow> Inl (LibError ''Invalid Semantic Version'')
      | Some (a, rest) \<Rightarrow>
          (case split_first rest ''.'' of
             None \<Rightarrow> Inl (LibError ''Invalid Semantic Version'')
           | Some (b, c) \<Rightarrow>
               (case (parse_uint a, parse_uint b, parse_uint c) of
                  (Some x, Some y, Some z) \<Rightarrow>
                    Inr \<lparr>Major = of_nat x, Minor = of_nat y, Patch = of_nat z,
                         Prerelease = [], BuildMetadata = []\<rparr>
                | _ \<Rightarrow> Inl (LibError ''Invalid Semantic Version''))))"

definition sample_GreaterThan :: "SemVersion \<Rightarrow> SemVersion \<Rightarrow> bool" where
  "sample_GreaterThan v w =
     (Major w < Major v \<or>
      (Major v = Major w \<and>
       (Minor w < Minor v \<or> (Minor v = Minor w \<and> Patch w < Patch v))))"

definition sample_env ::
  "(string \<times> Response) list \<Rightarrow> (string \<times> Metadata) list \<Rightarrow> (string \<times> PullResult) list
     \<Rightarrow> (string \<times> stat_error) list \<Rightarrow> env"
where
  "sample_env web documents registry missing =
     \<lparr>url_Parse = sample_url_Parse,
      url_String = sample_url_String,
      semver_NewVersion = sample_NewVersion,
      semver_GreaterThan = sample_GreaterThan,
      http_Get = (\<lambda>u. case map_of web u of
                        None \<Rightarrow> Inl (LibError ''no such host'')
                      | Some resp \<Rightarrow> Inr resp),
      json_Unmarshal = (\<lambda>body. case map_of documents body of
                                 None \<Rightarrow> Inl (LibError ''invalid character'')
                               | Some m \<Rightarrow> Inr (Some m)),
      sha256_hex = (\<lambda>body. ''sha256 of '' @ body),
      PklUriToRef = (\<lambda>uri. Inr uri),
      registry_Pull = (\<lambda>c ref withPackage. case map_of registry ref of
                                             None \<Rightarrow> Inl (LibError ''not found'')
                                           | Some pulled \<Rightarrow> Inr pulled),
      PklGetRelativePath = (\<lambda>base u. base @ ''/'' @ Host u @ Path u),
      os_Stat = map_of missing\<rparr>"

text \<open>A metadata record with the given URI, version and dependencies (alias and URI).\<close>

definition sample_dep :: "string \<Rightarrow> Dependency" where
  "sample_dep uri =
     \<lparr>Dep_Uri = uri, Dep_Checksums = None, Dep_Name = [], Dep_ProjectFileUri = []\<rparr>"

definition sample_metadata :: "string \<Rightarrow> string \<Rightarrow> (string \<times> string) list \<Rightarrow> Metadata" where
  "sample_metadata uri version deps =
     \<lparr>Name = ''pkg'', PackageUri = uri, Version = version,
      PackageZipUrl = ''https://example.com/pkg.zip'',
      PackageZipChecksums = \<lparr>Sha256 = []\<rparr>, Authors = [],
      Dependencies = map (\<lambda>(alias, u). (alias, sample_dep u)) deps,
      ResolverType = OCI, PlainHttp = False, Checksum = [], Source = []\<rparr>"

text \<open>
  The resolver that \<open>NewResolver\<close> returns when both registry clients can be made:
  \<open>plain\<close> is \<open>appConfig.PlainHttp\<close>, \<open>base\<close> is the cache directory joined with \<open>package-2\<close>,
  and the memo cache is empty.
\<close>

definition fresh_Resolver :: "bool \<Rightarrow> string \<Rightarrow> Resolver" where
  "fresh_Resolver plain base =
     \<lparr>ociResolver = NewOciResolver plain,
      httpResolver = NewHttpResolver plain,
      basePath = base, cache = Map.empty, fetchLog = []\<rparr>"

text \<open>A server where \<open>a\<close> depends on \<open>b\<close> and the metadata of \<open>b\<close> is missing.\<close>

definition sample_web_404 :: "(string \<times> Response) list" where
  "sample_web_404 =
     [(''https://example.com/a@1.0.0'',
       \<lparr>StatusCode = 200, Status = ''200 OK'', Body = Inr ''doc a''\<rparr>),
      (''https://example.com/b@1.0.0'',
       \<lparr>StatusCode = 404, Status = ''404 Not Found'', Body = Inr ''no such page''\<rparr>)]"

definition sample_documents_404 :: "(string \<times> Metadata) list" where
  "sample_documents_404 =
     [(''doc a'', sample_metadata ''package://example.com/a@1.0.0'' ''1.0.0''
                    [(''b'', ''package://example.com/b@1.0.0'')])]"

section \<open>Notions for the statements about deduplication\<close>

text \<open>
  \<open>range_visits E dependecies order\<close>: the second loop of \<open>Deduplicate\<close> can visit, in the
  order \<open>order\<close>, the map that the first loop builds from \<open>dependecies\<close>.
\<close>

definition range_visits :: "env \<Rightarrow> (string \<times> Metadata) list \<Rightarrow> string list \<Rightarrow> bool" where
  "range_visits E dependecies order =
     (case Deduplicate_group E dependecies Map.empty of
        Ok versioned \<Rightarrow> range_order order versioned
      | Err err \<Rightarrow> True
      | Panic p \<Rightarrow> True)"

text \<open>
  The major-version package identity as the specification words it (section 4.1): the
  scheme becomes the package-identity scheme, the trailing \<open>@version\<close> is stripped from the
  path, and \<open>@major\<close> is appended, the major in decimal. It is here to be compared with
  \<open>MajorVersionPackage\<close>.
\<close>

definition strip_trailing :: "string \<Rightarrow> string \<Rightarrow> string" where
  "strip_trailing s suffix =
     (if HasSuffix s suffix then take (length s - length suffix) s else s)"

definition spec_MajorVersionIdentity :: "env \<Rightarrow> Metadata \<Rightarrow> string result" where
  "spec_MajorVersionIdentity E metadata =
     (case url_Parse E (PackageUri metadata) of
        Inl err \<Rightarrow> Err err
      | Inr baseUri \<Rightarrow>
          (case semver_NewVersion E (Version metadata) of
             Inl err \<Rightarrow> Err err
           | Inr versionParsed \<Rightarrow>
               Ok (url_String E
                     (baseUri\<lparr>Scheme := ''package'',
                              Path := strip_trailing (Path baseUri) (CHR ''@'' # Version metadata)
                                      @ CHR ''@'' # format_d (unat (Major versionParsed))\<rparr>))))"

text \<open>Two versions of one package line whose path names a version higher up as well.\<close>

definition sample_nested :: "string \<Rightarrow> Metadata" where
  "sample_nested version =
     sample_metadata (''package://example.com/a@1.0.0/b@'' @ version) version []"

text \<open>Three versions of one package line, as in the example of the specification.\<close>

definition sample_pkg :: "string \<Rightarrow> Metadata" where
  "sample_pkg version = sample_metadata (''package://example.com/pkg@'' @ version) version []"

definition sample_line :: "(string \<times> Metadata) list" where
  "sample_line =
     [(''package://example.com/pkg@1.0.0'', sample_pkg ''1.0.0''),
      (''package://example.com/pkg@1.2.0'', sample_pkg ''1.2.0''),
      (''package://example.com/pkg@2.0.0'', sample_pkg ''2.0.0'')]"

section \<open>Notions for the statements about resolution\<close>

text \<open>The URIs that a dependency map names.\<close>

definition uris_of :: "(string \<times> Dependency) list \<Rightarrow> string set" where
  "uris_of deps = Dep_Uri ` snd ` set deps"

text \<open>
  The runs of \<open>Resolve_loop\<close> that return, without the fuel: \<open>walk E deps result r out r'\<close>
  says that the loop over \<open>deps\<close>, started with the local \<open>result\<close> and the resolver \<open>r\<close>,
  ends with \<open>out\<close> and leaves the resolver \<open>r'\<close>. It is used to reason by induction on a
  run; that every returning run of \<open>Resolve_loop\<close> is such a walk is proved below.
\<close>

inductive walk ::
  "env \<Rightarrow> (string \<times> Dependency) list \<Rightarrow> (string \<rightharpoonup> Metadata) \<Rightarrow> Resolver
     \<Rightarrow> (string \<rightharpoonup> Metadata) result \<Rightarrow> Resolver \<Rightarrow> bool"
  for E :: env
where
  walk_done: "walk E [] result r (Ok result) r"
| walk_cached:
    "cache r (Dep_Uri d) = Some metadata \<Longrightarrow>
     walk E rest (result(Dep_Uri d \<mapsto> metadata)) r out r' \<Longrightarrow>
     walk E ((k, d) # rest) result r out r'"
| walk_error:
    "cache r (Dep_Uri d) = None \<Longrightarrow>
     Resolve_fetch E (ociResolver r) (httpResolver r) d = Err err \<Longrightarrow>
     walk E ((k, d) # rest) result r (Err err) (r\<lparr>fetchLog := fetchLog r @ [Dep_Uri d]\<rparr>)"
| walk_panic:
    "cache r (Dep_Uri d) = None \<Longrightarrow>
     Resolve_fetch E (ociResolver r) (httpResolver r) d = Panic p \<Longrightarrow>
     walk E ((k, d) # rest) result r (Panic p) (r\<lparr>fetchLog := fetchLog r @ [Dep_Uri d]\<rparr>)"
| walk_leaf:
    "cache r (Dep_Uri d) = None \<Longrightarrow>
     Resolve_fetch E (ociResolver r) (httpResolver r) d = Ok fetched \<Longrightarrow>
     metadata = backfill_names fetched \<Longrightarrow>
     Dependencies metadata = [] \<Longrightarrow>
     walk E rest (result(Dep_Uri d \<mapsto> metadata))
       (r\<lparr>fetchLog := fetchLog r @ [Dep_Uri d], cache := (cache r)(Dep_Uri d \<mapsto> metadata)\<rparr>)
       out r' \<Longrightarrow>
     walk E ((k, d) # rest) result r out r'"
| walk_sub_error:
    "cache r (Dep_Uri d) = None \<Longrightarrow>
     Resolve_fetch E (ociResolver r) (httpResolver r) d = Ok fetched \<Longrightarrow>
     metadata = backfill_names fetched \<Longrightarrow>
     Dependencies metadata \<noteq> [] \<Longrightarrow>
     walk E (Dependencies metadata) Map.empty
       (r\<lparr>fetchLog := fetchLog r @ [Dep_Uri d], cache := (cache r)(Dep_Uri d \<mapsto> metadata)\<rparr>)
       out r' \<Longrightarrow>
     (\<And>subs. out \<noteq> Ok subs) \<Longrightarrow>
     walk E ((k, d) # rest) result r out r'"
| walk_sub:
    "cache r (Dep_Uri d) = None \<Longrightarrow>
     Resolve_fetch E (ociResolver r) (httpResolver r) d = Ok fetched \<Longrightarrow>
     metadata = backfill_names fetched \<Longrightarrow>
     Dependencies metadata \<noteq> [] \<Longrightarrow>
     walk E (Dependencies metadata) Map.empty
       (r\<lparr>fetchLog := fetchLog r @ [Dep_Uri d], cache := (cache r)(Dep_Uri d \<mapsto> metadata)\<rparr>)
       (Ok subs) r1 \<Longrightarrow>
     walk E rest (result(Dep_Uri d \<mapsto> metadata) ++ subs) r1 out r' \<Longrightarrow>
     walk E ((k, d) # rest) result r out r'"

text \<open>
  What a successful walk guarantees about its result \<open>res\<close>, with \<open>c\<close> and \<open>c'\<close> the memo
  cache before and after.
\<close>

definition walk_post ::
  "(string \<rightharpoonup> Metadata) \<Rightarrow> (string \<times> Dependency) list \<Rightarrow> (string \<rightharpoonup> Metadata)
     \<Rightarrow> (string \<rightharpoonup> Metadata) \<Rightarrow> (string \<rightharpoonup> Metadata) \<Rightarrow> bool"
where
  "walk_post result deps c c' res =
     (res \<subseteq>\<^sub>m c' \<and> dom result \<union> uris_of deps \<subseteq> dom res \<and> dom c' \<subseteq> dom c \<union> dom res \<and>
      (\<forall>u m. c u = None \<longrightarrow> c' u = Some m \<longrightarrow> uris_of (Dependencies m) \<subseteq> dom res))"

text \<open>
  A dependency graph: a set \<open>D\<close> of dependencies that holds, with each of its members whose
  metadata can be fetched, the dependencies that this metadata names (under their aliases,
  as the back-fill leaves them). \<open>dep_total\<close> says that the metadata of every member can be
  fetched.
\<close>

definition deps_of :: "(string \<times> Dependency) list \<Rightarrow> Dependency set" where
  "deps_of deps = snd ` set deps"

definition dep_closed :: "env \<Rightarrow> OciResolver \<Rightarrow> HttpResolver \<Rightarrow> Dependency set \<Rightarrow> bool" where
  "dep_closed E oci http D =
     (\<forall>d \<in> D. \<forall>md. Resolve_fetch E oci http d = Ok md \<longrightarrow>
        deps_of (Dependencies (backfill_names md)) \<subseteq> D)"

definition dep_total :: "env \<Rightarrow> OciResolver \<Rightarrow> HttpResolver \<Rightarrow> Dependency set \<Rightarrow> bool" where
  "dep_total E oci http D = (\<forall>d \<in> D. \<exists>md. Resolve_fetch E oci http d = Ok md)"

text \<open>\<open>depends_on res u v\<close>: the metadata that \<open>res\<close> holds for \<open>u\<close> names \<open>v\<close>.\<close>

definition depends_on :: "(string \<rightharpoonup> Metadata) \<Rightarrow> string \<Rightarrow> string \<Rightarrow> bool" where
  "depends_on res u v = (\<exists>m. res u = Some m \<and> v \<in> uris_of (Dependencies m))"

text \<open>Two packages that depend on each other.\<close>

definition sample_web_cycle :: "(string \<times> Response) list" where
  "sample_web_cycle =
     [(''https://example.com/a@1.0.0'',
       \<lparr>StatusCode = 200, Status = ''200 OK'', Body = Inr ''doc a''\<rparr>),
      (''https://example.com/b@1.0.0'',
       \<lparr>StatusCode = 200, Status = ''200 OK'', Body = Inr ''doc b''\<rparr>)]"

definition sample_documents_cycle :: "(string \<times> Metadata) list" where
  "sample_documents_cycle =
     [(''doc a'', sample_metadata ''package://example.com/a@1.0.0'' ''1.0.0''
                    [(''b'', ''package://example.com/b@1.0.0'')]),
      (''doc b'', sample_metadata ''package://example.com/b@1.0.0'' ''1.0.0''
                    [(''a'', ''package://example.com/a@1.0.0'')])]"

text \<open>
  What the resolution of \<open>a\<close> on that server gives, the dependencies that it meets, and
  the resolver that it leaves.
\<close>

definition sample_cycle_a :: Metadata where
  "sample_cycle_a =
     backfill_names ((sample_metadata ''package://example.com/a@1.0.0'' ''1.0.0''
        [(''b'', ''package://example.com/b@1.0.0'')])
        \<lparr>ResolverType := HTTP, Source := ''doc a'', Checksum := ''sha256 of doc a''\<rparr>)"

definition sample_cycle_b :: Metadata where
  "sample_cycle_b =
     backfill_names ((sample_metadata ''package://example.com/b@1.0.0'' ''1.0.0''
        [(''a'', ''package://example.com/a@1.0.0'')])
        \<lparr>ResolverType := HTTP, Source := ''doc b'', Checksum := ''sha256 of doc b''\<rparr>)"

definition sample_cycle_result :: "string \<rightharpoonup> Metadata" where
  "sample_cycle_result =
     [''package://example.com/a@1.0.0'' \<mapsto> sample_cycle_a,
      ''package://example.com/b@1.0.0'' \<mapsto> sample_cycle_b]"

definition sample_cycle_deps :: "Dependency set" where
  "sample_cycle_deps =
     {sample_dep ''package://example.com/a@1.0.0'',
      (sample_dep ''package://example.com/b@1.0.0'')\<lparr>Dep_Name := ''b''\<rparr>,
      (sample_dep ''package://example.com/a@1.0.0'')\<lparr>Dep_Name := ''a''\<rparr>}"

definition sample_cycle_warm :: Resolver where
  "sample_cycle_warm =
     (fresh_Resolver False ''/cache/package-2'')
       \<lparr>cache := sample_cycle_result,
        fetchLog := [''package://example.com/a@1.0.0'', ''package://example.com/b@1.0.0'']\<rparr>"

text \<open>A registry with one package.\<close>

definition sample_registry :: "(string \<times> PullResult) list" where
  "sample_registry =
     [(''package://example.com/pkg@1.0.0'', \<lparr>MetadataData = ''doc'', ArchiveData = ''zip''\<rparr>)]"

definition sample_registry_documents :: "(string \<times> Metadata) list" where
  "sample_registry_documents =
     [(''doc'', sample_metadata ''package://example.com/pkg@1.0.0'' ''1.0.0'' [])]"

definition sample_pulled :: Metadata where
  "sample_pulled =
     (sample_metadata ''package://example.com/pkg@1.0.0'' ''1.0.0'' [])
       \<lparr>Source := ''doc'', Checksum := ''sha256 of doc''\<rparr>"

section \<open>Evaluation of the concrete environment\<close>

lemmas sample_defs =
  sample_env_def sample_metadata_def sample_dep_def sample_url_Parse_def sample_url_String_def
  empty_URL_def first_segment_def authority_user_def authority_host_def escape_path_def
  path_byte_stays_def upper_hex_digit_def is_alpha_def is_ctl_def to_lower_def HasSuffix_def
  Let_def
  sample_NewVersion_def sample_GreaterThan_def parse_uint_def is_digit_def

lemmas fresh_defs = fresh_Resolver_def NewOciResolver_def NewHttpResolver_def

lemmas eval_defs = Resolve_def Resolve_fetch_def HttpResolver_ResolveMetadata_def
  OciResolver_ResolveMetadata_def OciResolver_metadata_client_def unmarshal_Metadata_def
  json_hidden_zero_def backfill_names_def HasSuffix_def Let_def

lemmas dedup_defs = Deduplicate_def MajorVersionPackage_def MustParse_def format_x.simps
  hex_digit_def sample_pkg_def sample_line_def

section \<open>Transports: status codes, archives, clients\<close>

text \<open>
  C3. The claim: \<open>HttpResolver.ResolveMetadata\<close> treats every response status greater than
  or equal to 300 as a failure. The comparison in the code is \<open>resp.StatusCode > 300\<close>, so
  a response with status exactly 300 is accepted: here such a response with a body that
  decodes is returned as metadata, with no error.
\<close>

theorem HttpResolver_ResolveMetadata_accepts_300:
  "HttpResolver_ResolveMetadata
     (sample_env
        [(''https://example.com/pkg@1.0.0'',
          \<lparr>StatusCode = 300, Status = ''300 Multiple Choices'', Body = Inr ''doc''\<rparr>)]
        [(''doc'', sample_metadata ''package://example.com/pkg@1.0.0'' ''1.0.0'' [])] [] [])
     \<lparr>http_plainHttp = False\<rparr> ''package://example.com/pkg@1.0.0'' False
   = Ok ((sample_metadata ''package://example.com/pkg@1.0.0'' ''1.0.0'' [])
           \<lparr>ResolverType := HTTP, Source := ''doc'', PlainHttp := False,
            Checksum := ''sha256 of doc''\<rparr>)"
  by (simp add: HttpResolver_ResolveMetadata_def unmarshal_Metadata_def json_hidden_zero_def
      sample_defs)

text \<open>
  C8. \<open>HttpResolver.ResolveArchive\<close> never fails because of the response status: whenever
  the GET against \<open>PackageZipUrl\<close> gives a response whose body can be read, that body is
  returned as the archive, whatever the status code and whatever \<open>PackageZipChecksums\<close> says.
\<close>

theorem HttpResolver_ResolveArchive_ignores_status:
  assumes "http_Get E (PackageZipUrl metadata) = Inr resp"
    and "Body resp = Inr body"
  shows "HttpResolver_ResolveArchive E r metadata = Ok body"
  using assms by (simp add: HttpResolver_ResolveArchive_def)

theorem HttpResolver_ResolveArchive_ignores_status_witness:
  "HttpResolver_ResolveArchive
     (sample_env [(''https://example.com/pkg.zip'',
                   \<lparr>StatusCode = 404, Status = ''404 Not Found'', Body = Inr ''no such page''\<rparr>)]
        [] [] [])
     \<lparr>http_plainHttp = False\<rparr>
     ((sample_metadata ''package://example.com/pkg@1.0.0'' ''1.0.0'' [])
        \<lparr>PackageZipChecksums := \<lparr>Sha256 = ''0123abcd''\<rparr>\<rparr>)
   = Ok ''no such page''
   \<and> HttpResolver_ResolveArchive
     (sample_env [(''https://example.com/pkg.zip'',
                   \<lparr>StatusCode = 500, Status = ''500 Internal Server Error'', Body = Inr []\<rparr>)]
        [] [] [])
     \<lparr>http_plainHttp = False\<rparr>
     (sample_metadata ''package://example.com/pkg@1.0.0'' ''1.0.0'' [])
   = Ok []"
proof -
  let ?r404 = "\<lparr>StatusCode = 404, Status = ''404 Not Found'', Body = Inr ''no such page''\<rparr>"
  let ?r500 = "\<lparr>StatusCode = 500, Status = ''500 Internal Server Error'', Body = Inr []\<rparr>"
  let ?m = "sample_metadata ''package://example.com/pkg@1.0.0'' ''1.0.0'' []"
  let ?m' = "?m\<lparr>PackageZipChecksums := \<lparr>Sha256 = ''0123abcd''\<rparr>\<rparr>"
  have a: "http_Get (sample_env [(''https://example.com/pkg.zip'', ?r404)] [] [] [])
             (PackageZipUrl ?m') = Inr ?r404"
    by (simp add: sample_defs)
  have b: "http_Get (sample_env [(''https://example.com/pkg.zip'', ?r500)] [] [] [])
             (PackageZipUrl ?m) = Inr ?r500"
    by (simp add: sample_defs)
  show ?thesis
    using HttpResolver_ResolveArchive_ignores_status
            [OF a, of "''no such page''" "\<lparr>http_plainHttp = False\<rparr>"]
      HttpResolver_ResolveArchive_ignores_status [OF b, of "[]" "\<lparr>http_plainHttp = False\<rparr>"]
    by simp
qed

text \<open>
  C10. The claim says that \<open>OciResolver.ResolveArchive\<close> then always pulls with the default,
  non-plaintext client. The default client \<open>r.client\<close> is made with the process-wide
  setting: with \<open>appConfig.PlainHttp\<close> on it is a plaintext client, and it is the one that a
  metadata resolved through the registry is pulled with.
\<close>

theorem OciResolver_default_client_plaintext:
  "OciResolver_ResolveMetadata (sample_env [] sample_registry_documents sample_registry [])
     (NewOciResolver True) ''package://example.com/pkg@1.0.0'' False = Ok sample_pulled
   \<and> PlainHttp sample_pulled = False
   \<and> OciResolver_archive_client (NewOciResolver True) sample_pulled = \<lparr>ClientPlainHttp = True\<rparr>"
  by (simp add: OciResolver_ResolveMetadata_def OciResolver_metadata_client_def
      OciResolver_archive_client_def unmarshal_Metadata_def json_hidden_zero_def
      NewOciResolver_def sample_registry_def sample_registry_documents_def sample_pulled_def
      sample_defs)

text \<open>
  C10, as amended. The metadata that \<open>OciResolver.ResolveMetadata\<close> returns has
  \<open>PlainHttp\<close> false, whatever its \<open>plainHttp\<close> argument was; so \<open>OciResolver.ResolveArchive\<close>,
  of any \<open>OciResolver\<close>, pulls such a metadata's archive with the default client \<open>r.client\<close>
  and never with \<open>r.plainClient\<close>; the default client is plaintext exactly when the
  process-wide setting is.
\<close>

theorem OciResolver_never_sets_PlainHttp:
  assumes "OciResolver_ResolveMetadata E r uri plain = Ok metadata"
  shows "PlainHttp metadata = False
       \<and> OciResolver_archive_client r' metadata = oci_client r'
       \<and> ClientPlainHttp (OciResolver_archive_client (NewOciResolver config) metadata) = config
       \<and> OciResolver_ResolveArchive E' r' metadata =
           (case PklUriToRef E' (PackageUri metadata) of
              Inl err \<Rightarrow> Err err
            | Inr ref \<Rightarrow>
                (case registry_Pull E' (oci_client r') ref True of
                   Inl err \<Rightarrow> Err err
                 | Inr pulled \<Rightarrow> Ok (ArchiveData pulled)))"
proof -
  from assms have "PlainHttp metadata = False"
    by (auto simp: OciResolver_ResolveMetadata_def unmarshal_Metadata_def json_hidden_zero_def
        split: sum.splits option.splits)
  moreover from this have "\<And>r'. OciResolver_archive_client r' metadata = oci_client r'"
    by (simp add: OciResolver_archive_client_def)
  ultimately show ?thesis
    by (simp add: OciResolver_ResolveArchive_def NewOciResolver_def split: sum.splits)
qed

theorem OciResolver_never_sets_PlainHttp_witness:
  "OciResolver_ResolveMetadata
     (sample_env [] [(''doc'', (sample_metadata ''package://example.com/pkg@1.0.0'' ''1.0.0'' [])
                                 \<lparr>PlainHttp := True\<rparr>)]
        [(''package://example.com/pkg@1.0.0'', \<lparr>MetadataData = ''doc'', ArchiveData = ''zip''\<rparr>)] [])
     \<lparr>oci_client = \<lparr>ClientPlainHttp = False\<rparr>, oci_plainClient = \<lparr>ClientPlainHttp = True\<rparr>\<rparr>
     ''package://example.com/pkg@1.0.0'' True
   = Ok ((sample_metadata ''package://example.com/pkg@1.0.0'' ''1.0.0'' [])
           \<lparr>Source := ''doc'', Checksum := ''sha256 of doc''\<rparr>)
   \<and> PlainHttp ((sample_metadata ''package://example.com/pkg@1.0.0'' ''1.0.0'' [])
           \<lparr>Source := ''doc'', Checksum := ''sha256 of doc''\<rparr>) = False
   \<and> OciResolver_archive_client
       \<lparr>oci_client = \<lparr>ClientPlainHttp = False\<rparr>, oci_plainClient = \<lparr>ClientPlainHttp = True\<rparr>\<rparr>
       ((sample_metadata ''package://example.com/pkg@1.0.0'' ''1.0.0'' [])
           \<lparr>Source := ''doc'', Checksum := ''sha256 of doc''\<rparr>)
     = \<lparr>ClientPlainHttp = False\<rparr>"
proof -
  let ?E = "sample_env [] [(''doc'', (sample_metadata ''package://example.com/pkg@1.0.0'' ''1.0.0'' [])
                                 \<lparr>PlainHttp := True\<rparr>)]
        [(''package://example.com/pkg@1.0.0'', \<lparr>MetadataData = ''doc'', ArchiveData = ''zip''\<rparr>)] []"
  let ?r = "\<lparr>oci_client = \<lparr>ClientPlainHttp = False\<rparr>, oci_plainClient = \<lparr>ClientPlainHttp = True\<rparr>\<rparr>"
  let ?m = "(sample_metadata ''package://example.com/pkg@1.0.0'' ''1.0.0'' [])
           \<lparr>Source := ''doc'', Checksum := ''sha256 of doc''\<rparr>"
  have a: "OciResolver_ResolveMetadata ?E ?r ''package://example.com/pkg@1.0.0'' True = Ok ?m"
    by (simp add: OciResolver_ResolveMetadata_def OciResolver_metadata_client_def
        unmarshal_Metadata_def json_hidden_zero_def sample_defs)
  show ?thesis
    using a OciResolver_never_sets_PlainHttp [OF a, of ?r False ?E]
    by (simp add: NewOciResolver_def)
qed

section \<open>Cache check\<close>

text \<open>
  C9. For a metadata whose \<open>PackageUri\<close> parses, \<open>Exists\<close> returns no error: it returns
  false exactly when the stat fails with "does not exist", and true otherwise, so a stat
  failure of any other kind (a permission error) is reported as \<open>(true, nil)\<close>.
\<close>

theorem Exists_stat_failure_is_cached:
  assumes "url_Parse E (PackageUri metadata) = Inr baseUri"
  shows "Exists E r metadata =
           Ok (os_Stat E (PklGetRelativePath E (basePath r) baseUri) \<noteq> Some ErrNotExist)"
  using assms by (simp add: Exists_def Let_def)

theorem Exists_stat_failure_is_cached_witness:
  "Exists (sample_env [] [] [] [(''/cache/package-2/example.com/pkg@1.0.0'', ErrPermission)])
     \<lparr>ociResolver = \<lparr>oci_client = \<lparr>ClientPlainHttp = False\<rparr>,
                      oci_plainClient = \<lparr>ClientPlainHttp = True\<rparr>\<rparr>,
      httpResolver = \<lparr>http_plainHttp = False\<rparr>,
      basePath = ''/cache/package-2'', cache = Map.empty, fetchLog = []\<rparr>
     (sample_metadata ''package://example.com/pkg@1.0.0'' ''1.0.0'' [])
   = Ok True"
proof -
  let ?E = "sample_env [] [] [] [(''/cache/package-2/example.com/pkg@1.0.0'', ErrPermission)]"
  let ?m = "sample_metadata ''package://example.com/pkg@1.0.0'' ''1.0.0'' []"
  have a: "url_Parse ?E (PackageUri ?m) =
             Inr \<lparr>Scheme = ''package'', Opaque = [], User = [], Host = ''example.com'',
                  Path = ''/pkg@1.0.0'', RawPath = [],
             OmitHost = False, ForceQuery = False, RawQuery = [], Fragment = []\<rparr>"
    by (simp add: sample_defs)
  show ?thesis
    using Exists_stat_failure_is_cached [OF a]
    by (simp add: sample_defs)
qed

section \<open>Major-version package identity\<close>

text \<open>
  C6. The claim: \<open>MajorVersionPackage\<close> renders the major component in decimal for every
  major, also above 9. The code formats it with \<open>%x\<close>: for version \<open>10.0.0\<close> the
  identity ends in \<open>@a\<close>, where the decimal rendering of 10 is \<open>10\<close>.
\<close>

theorem MajorVersionPackage_major_10_is_hex:
  "MajorVersionPackage (sample_env [] [] [] [])
     (sample_metadata ''package://example.com/pkg@10.0.0'' ''10.0.0'' [])
   = Ok ''package://example.com/pkg@a''
   \<and> format_d 10 = ''10''"
  by (simp add: MajorVersionPackage_def MustParse_def format_x.simps format_d.simps
      hex_digit_def sample_defs)

section \<open>Deduplication\<close>

text \<open>
  C5. The claim: \<open>Deduplicate\<close> returns an error when a \<open>PackageUri\<close> or a \<open>Version\<close>
  of the input cannot be parsed. It does for the URI; a version that does not parse makes
  \<open>semver.MustParse\<close> panic, and no error is returned.
\<close>

theorem Deduplicate_bad_version_panics:
  "Deduplicate (sample_env [] [] [] [])
     [(''package://example.com/pkg@1.0.0'',
       sample_metadata ''package://example.com/pkg@1.0.0'' ''not-a-version'' [])] []
   = Panic ''semver.MustParse''
   \<and> Deduplicate (sample_env [] [] [] [])
     [(''://example.com/pkg@1.0.0'', sample_metadata ''://example.com/pkg@1.0.0'' ''1.0.0'' [])] []
   = Err (LibError ''missing protocol scheme'')"
  by (simp add: Deduplicate_def MajorVersionPackage_def MustParse_def sample_defs)

subsection \<open>The second loop\<close>

lemma rekey_source:
  "Deduplicate_rekey v ks res0 p = Some m \<Longrightarrow>
     res0 p = Some m \<or> (PackageUri m = p \<and> (\<exists>k \<in> set ks. v k = Some m))"
proof (induction ks arbitrary: res0)
  case Nil
  then show ?case by simp
next
  case (Cons k ks)
  show ?case
  proof (cases "v k")
    case None
    with Cons show ?thesis by auto
  next
    case (Some dep)
    with Cons.prems have "Deduplicate_rekey v ks (res0(PackageUri dep \<mapsto> dep)) p = Some m"
      by simp
    from Cons.IH [OF this] Some show ?thesis
      by (auto split: if_splits)
  qed
qed

lemma rekey_keeps:
  assumes "res0 p = Some m"
    and "\<forall>k \<in> set ks. \<forall>m'. v k = Some m' \<longrightarrow> PackageUri m' = p \<longrightarrow> m' = m"
  shows "Deduplicate_rekey v ks res0 p = Some m"
  using assms
proof (induction ks arbitrary: res0)
  case Nil
  then show ?case by simp
next
  case (Cons k ks)
  show ?case
  proof (cases "v k")
    case None
    with Cons show ?thesis by simp
  next
    case (Some dep)
    have "(res0(PackageUri dep \<mapsto> dep)) p = Some m"
      using Cons.prems Some by auto
    moreover have "\<forall>k \<in> set ks. \<forall>m'. v k = Some m' \<longrightarrow> PackageUri m' = p \<longrightarrow> m' = m"
      using Cons.prems by simp
    ultimately have "Deduplicate_rekey v ks (res0(PackageUri dep \<mapsto> dep)) p = Some m"
      by (rule Cons.IH)
    with Some show ?thesis by simp
  qed
qed

lemma rekey_injective:
  assumes "\<forall>k \<in> set ks. \<forall>k' \<in> set ks. \<forall>m m'.
             v k = Some m \<longrightarrow> v k' = Some m' \<longrightarrow> PackageUri m = PackageUri m' \<longrightarrow> m = m'"
    and "k \<in> set ks" and "v k = Some m"
  shows "Deduplicate_rekey v ks res0 (PackageUri m) = Some m"
  using assms
proof (induction ks arbitrary: res0)
  case Nil
  then show ?case by simp
next
  case (Cons k0 ks)
  note inj0 = Cons.prems(1) [rule_format]
  show ?case
  proof (cases "k = k0")
    case True
    then have vk0: "v k0 = Some m" using Cons.prems(3) by simp
    have "Deduplicate_rekey v ks (res0(PackageUri m \<mapsto> m)) (PackageUri m) = Some m"
    proof (rule rekey_keeps)
      show "(res0(PackageUri m \<mapsto> m)) (PackageUri m) = Some m" by simp
      show "\<forall>k \<in> set ks. \<forall>m'. v k = Some m' \<longrightarrow> PackageUri m' = PackageUri m \<longrightarrow> m' = m"
      proof (intro ballI allI impI)
        fix k' m'
        assume a: "k' \<in> set ks" "v k' = Some m'" "PackageUri m' = PackageUri m"
        have "k' \<in> set (k0 # ks)" "k0 \<in> set (k0 # ks)" using a(1) by simp_all
        from inj0 [OF this a(2) vk0 a(3)] show "m' = m" .
      qed
    qed
    with vk0 show ?thesis by simp
  next
    case False
    with Cons.prems(2) have in_ks: "k \<in> set ks" by simp
    have inj: "\<forall>k \<in> set ks. \<forall>k' \<in> set ks. \<forall>m m'.
             v k = Some m \<longrightarrow> v k' = Some m' \<longrightarrow> PackageUri m = PackageUri m' \<longrightarrow> m = m'"
    proof (intro ballI allI impI)
      fix k1 k2 m1 m2
      assume a: "k1 \<in> set ks" "k2 \<in> set ks" "v k1 = Some m1" "v k2 = Some m2"
        "PackageUri m1 = PackageUri m2"
      have "k1 \<in> set (k0 # ks)" "k2 \<in> set (k0 # ks)" using a(1,2) by simp_all
      from inj0 [OF this a(3) a(4) a(5)] show "m1 = m2" .
    qed
    from Cons.IH [OF inj in_ks Cons.prems(3)] show ?thesis
      by (cases "v k0") simp_all
  qed
qed

subsection \<open>The first loop\<close>

lemma Deduplicate_Ok:
  "Deduplicate E xs ks = Ok out \<longleftrightarrow>
     (\<exists>v. Deduplicate_group E xs Map.empty = Ok v \<and> out = Deduplicate_rekey v ks Map.empty)"
  by (auto simp: Deduplicate_def split: result.splits)

lemma group_stored_key:
  assumes "Deduplicate_group E xs v0 = Ok v"
    and "\<forall>k s. v0 k = Some s \<longrightarrow> MajorVersionPackage E s = Ok k"
  shows "\<forall>k s. v k = Some s \<longrightarrow> MajorVersionPackage E s = Ok k"
  using assms
proof (induction xs arbitrary: v0)
  case Nil
  then show ?case by simp
next
  case (Cons x xs)
  obtain u dep where x: "x = (u, dep)" by (cases x)
  from Cons.prems(1) x obtain k where key: "MajorVersionPackage E dep = Ok k"
    by (cases "MajorVersionPackage E dep") simp_all
  have upd: "\<forall>k' s. (v0(k \<mapsto> dep)) k' = Some s \<longrightarrow> MajorVersionPackage E s = Ok k'"
    using Cons.prems(2) key by auto
  from Cons.prems(1) x key
  have "Deduplicate_group E xs (v0(k \<mapsto> dep)) = Ok v \<or> Deduplicate_group E xs v0 = Ok v"
    by (auto split: option.splits result.splits if_splits)
  then show ?case
    using Cons.IH [OF _ upd] Cons.IH [OF _ Cons.prems(2)] by blast
qed

lemma group_fresh:
  assumes "\<forall>x \<in> set ys. \<exists>k. MajorVersionPackage E (snd x) = Ok k \<and> v0 k = None"
    and "distinct (map (\<lambda>x. MajorVersionPackage E (snd x)) ys)"
  shows "\<exists>v. Deduplicate_group E ys v0 = Ok v \<and>
           (\<forall>k m. v k = Some m \<longleftrightarrow>
              (v0 k = Some m \<or> (m \<in> snd ` set ys \<and> MajorVersionPackage E m = Ok k)))"
  using assms
proof (induction ys arbitrary: v0)
  case Nil
  then show ?case by simp
next
  case (Cons x ys)
  obtain u dep where x: "x = (u, dep)" by (cases x)
  from Cons.prems(1) x obtain k where key: "MajorVersionPackage E dep = Ok k" and none: "v0 k = None"
    by auto
  have other: "\<And>y. y \<in> set ys \<Longrightarrow> MajorVersionPackage E (snd y) \<noteq> Ok k"
    using Cons.prems(2) x key by (force simp: image_iff)
  have pre: "\<forall>y \<in> set ys. \<exists>k'. MajorVersionPackage E (snd y) = Ok k' \<and> (v0(k \<mapsto> dep)) k' = None"
  proof
    fix y assume y: "y \<in> set ys"
    with Cons.prems(1) obtain k' where "MajorVersionPackage E (snd y) = Ok k'" "v0 k' = None"
      by auto
    moreover from this other [OF y] have "k' \<noteq> k" by auto
    ultimately show "\<exists>k'. MajorVersionPackage E (snd y) = Ok k' \<and> (v0(k \<mapsto> dep)) k' = None"
      by auto
  qed
  from Cons.prems(2) have dist: "distinct (map (\<lambda>x. MajorVersionPackage E (snd x)) ys)"
    by simp
  from Cons.IH [OF pre dist] obtain v where
    run: "Deduplicate_group E ys (v0(k \<mapsto> dep)) = Ok v"
    and v: "\<And>k' m. v k' = Some m \<longleftrightarrow>
              ((v0(k \<mapsto> dep)) k' = Some m \<or> (m \<in> snd ` set ys \<and> MajorVersionPackage E m = Ok k'))"
    by blast
  have "Deduplicate_group E (x # ys) v0 = Ok v"
    using run x key none by simp
  moreover have "\<forall>k' m. v k' = Some m \<longleftrightarrow>
              (v0 k' = Some m \<or> (m \<in> snd ` set (x # ys) \<and> MajorVersionPackage E m = Ok k'))"
  proof (intro allI)
    fix k' m
    show "v k' = Some m \<longleftrightarrow>
              (v0 k' = Some m \<or> (m \<in> snd ` set (x # ys) \<and> MajorVersionPackage E m = Ok k'))"
      unfolding v using x key none by (cases "k' = k") auto
  qed
  ultimately show ?case by blast
qed

subsection \<open>The example of the specification\<close>

lemma sample_line_versioned:
  "Deduplicate_group (sample_env [] [] [] []) sample_line Map.empty =
     Ok [''package://example.com/pkg@1'' \<mapsto> sample_pkg ''1.2.0'',
         ''package://example.com/pkg@2'' \<mapsto> sample_pkg ''2.0.0'']"
  by (simp add: dedup_defs sample_defs)

subsection \<open>Package lines\<close>

text \<open>
  C2. The claim: \<open>Deduplicate\<close> keeps, of every major-version package line, the entry
  with the greatest version. \<open>MajorVersionPackage\<close> removes the first \<open>@version\<close> of the
  path, not the trailing one: the versions \<open>1.0.0\<close> and \<open>1.2.0\<close> of
  \<open>package://example.com/a@1.0.0/b\<close> are one line by the identity of the specification,
  get two different keys, and are both kept.
\<close>

theorem Deduplicate_keeps_two_of_one_line:
  "spec_MajorVersionIdentity (sample_env [] [] [] []) (sample_nested ''1.0.0'')
     = Ok ''package://example.com/a@1.0.0/b@1''
   \<and> spec_MajorVersionIdentity (sample_env [] [] [] []) (sample_nested ''1.2.0'')
     = Ok ''package://example.com/a@1.0.0/b@1''
   \<and> MajorVersionPackage (sample_env [] [] [] []) (sample_nested ''1.0.0'')
     = Ok ''package://example.com/a/b@1.0.0@1''
   \<and> MajorVersionPackage (sample_env [] [] [] []) (sample_nested ''1.2.0'')
     = Ok ''package://example.com/a@1.0.0/b@1''
   \<and> Deduplicate (sample_env [] [] [] [])
       [(''package://example.com/a@1.0.0/b@1.0.0'', sample_nested ''1.0.0''),
        (''package://example.com/a@1.0.0/b@1.2.0'', sample_nested ''1.2.0'')]
       [''package://example.com/a/b@1.0.0@1'', ''package://example.com/a@1.0.0/b@1'']
     = Ok [''package://example.com/a@1.0.0/b@1.0.0'' \<mapsto> sample_nested ''1.0.0'',
           ''package://example.com/a@1.0.0/b@1.2.0'' \<mapsto> sample_nested ''1.2.0'']"
  by (simp add: spec_MajorVersionIdentity_def strip_trailing_def sample_nested_def
      format_d.simps dedup_defs sample_defs)

subsection \<open>Idempotence\<close>

text \<open>
  C7. \<open>Deduplicate\<close> is idempotent: when it succeeds on an input with the result \<open>out\<close>,
  then on \<open>out\<close> itself, its entries visited in any order, it succeeds with \<open>out\<close> again.
\<close>

theorem Deduplicate_idempotent:
  assumes run: "Deduplicate E xs ks = Ok out"
    and enum: "map_of ys = out" "distinct (map fst ys)"
    and ord: "range_visits E ys ks'"
  shows "Deduplicate E ys ks' = Ok out"
proof -
  from run obtain v where g: "Deduplicate_group E xs Map.empty = Ok v"
    and out: "out = Deduplicate_rekey v ks Map.empty"
    by (auto simp: Deduplicate_Ok)
  have stored: "\<And>k s. v k = Some s \<Longrightarrow> MajorVersionPackage E s = Ok k"
    using group_stored_key [OF g] by simp
  have entry: "\<And>p m. (p, m) \<in> set ys \<Longrightarrow> PackageUri m = p \<and> (\<exists>k. v k = Some m)"
  proof -
    fix p m assume "(p, m) \<in> set ys"
    with enum have "out p = Some m" by auto
    with rekey_source [of v ks Map.empty p m] out
    show "PackageUri m = p \<and> (\<exists>k. v k = Some m)" by auto
  qed
  have keyed: "\<forall>x \<in> set ys. \<exists>k. MajorVersionPackage E (snd x) = Ok k \<and> Map.empty k = None"
  proof
    fix x assume "x \<in> set ys"
    then have "(fst x, snd x) \<in> set ys" by simp
    from entry [OF this] stored
    show "\<exists>k. MajorVersionPackage E (snd x) = Ok k \<and> Map.empty k = None" by auto
  qed
  have inj: "inj_on (\<lambda>x. MajorVersionPackage E (snd x)) (set ys)"
  proof (rule inj_onI)
    fix x y assume a: "x \<in> set ys" "y \<in> set ys"
      "MajorVersionPackage E (snd x) = MajorVersionPackage E (snd y)"
    from a(1) have "(fst x, snd x) \<in> set ys" by simp
    from entry [OF this] obtain k where k: "PackageUri (snd x) = fst x" "v k = Some (snd x)"
      by blast
    from a(2) have "(fst y, snd y) \<in> set ys" by simp
    from entry [OF this] obtain k' where k': "PackageUri (snd y) = fst y" "v k' = Some (snd y)"
      by blast
    from stored [OF k(2)] stored [OF k'(2)] a(3) have "k = k'" by simp
    with k k' have "snd x = snd y" "fst x = fst y" by simp_all
    then show "x = y" by (rule_tac prod_eqI) simp_all
  qed
  from enum(2) have "distinct ys" by (simp add: distinct_map)
  with inj have dist: "distinct (map (\<lambda>x. MajorVersionPackage E (snd x)) ys)"
    by (simp add: distinct_map)
  from group_fresh [OF keyed dist] obtain v2 where
    g2: "Deduplicate_group E ys Map.empty = Ok v2"
    and v2: "\<And>k m. v2 k = Some m \<longleftrightarrow> (m \<in> snd ` set ys \<and> MajorVersionPackage E m = Ok k)"
    by auto
  from ord g2 have ks': "set ks' = dom v2"
    by (simp add: range_visits_def range_order_def)
  have member: "\<And>m. m \<in> snd ` set ys \<Longrightarrow> (PackageUri m, m) \<in> set ys"
    using entry by force
  have "Deduplicate_rekey v2 ks' Map.empty = map_of ys"
  proof (rule ext)
    fix p
    show "Deduplicate_rekey v2 ks' Map.empty p = map_of ys p"
    proof (cases "map_of ys p")
      case (Some m)
      then have pm: "(p, m) \<in> set ys" by (rule map_of_SomeD)
      from entry [OF pm] obtain k where k: "PackageUri m = p" "v k = Some m" by blast
      from pm have "m \<in> snd ` set ys" by force
      with stored [OF k(2)] v2 have v2k: "v2 k = Some m" by simp
      then have kin: "k \<in> set ks'" using ks' by auto
      have "\<forall>k \<in> set ks'. \<forall>k' \<in> set ks'. \<forall>m m'.
             v2 k = Some m \<longrightarrow> v2 k' = Some m' \<longrightarrow> PackageUri m = PackageUri m' \<longrightarrow> m = m'"
      proof (intro ballI allI impI)
        fix k1 k2 m1 m2
        assume a: "v2 k1 = Some m1" "v2 k2 = Some m2" "PackageUri m1 = PackageUri m2"
        from a(1) v2 have "(PackageUri m1, m1) \<in> set ys" using member by simp
        moreover from a(2) v2 have "(PackageUri m2, m2) \<in> set ys" using member by simp
        ultimately show "m1 = m2"
          using a(3) enum(2) by (metis map_of_is_SomeI option.inject)
      qed
      from rekey_injective [of ks' v2 k m Map.empty, OF this kin v2k] k(1) Some
      show ?thesis by simp
    next
      case None
      show ?thesis
      proof (cases "Deduplicate_rekey v2 ks' Map.empty p")
        case None
        with \<open>map_of ys p = None\<close> show ?thesis by simp
      next
        case (Some m)
        from rekey_source [OF Some] obtain k where "PackageUri m = p" "v2 k = Some m"
          by auto
        with v2 member have "(p, m) \<in> set ys" by auto
        with None have False by (metis map_of_SomeD weak_map_of_SomeI option.distinct(1))
        then show ?thesis ..
      qed
    qed
  qed
  with g2 enum(1) show ?thesis
    by (simp add: Deduplicate_def)
qed

theorem Deduplicate_idempotent_witness:
  "Deduplicate (sample_env [] [] [] []) sample_line
       [''package://example.com/pkg@1'', ''package://example.com/pkg@2'']
     = Ok [''package://example.com/pkg@1.2.0'' \<mapsto> sample_pkg ''1.2.0'',
           ''package://example.com/pkg@2.0.0'' \<mapsto> sample_pkg ''2.0.0'']
   \<and> Deduplicate (sample_env [] [] [] [])
       [(''package://example.com/pkg@2.0.0'', sample_pkg ''2.0.0''),
        (''package://example.com/pkg@1.2.0'', sample_pkg ''1.2.0'')]
       [''package://example.com/pkg@2'', ''package://example.com/pkg@1'']
     = Ok [''package://example.com/pkg@1.2.0'' \<mapsto> sample_pkg ''1.2.0'',
           ''package://example.com/pkg@2.0.0'' \<mapsto> sample_pkg ''2.0.0'']"
proof -
  let ?E = "sample_env [] [] [] []"
  let ?ks = "[''package://example.com/pkg@1'', ''package://example.com/pkg@2'']"
  let ?ks' = "[''package://example.com/pkg@2'', ''package://example.com/pkg@1'']"
  let ?ys = "[(''package://example.com/pkg@2.0.0'', sample_pkg ''2.0.0''),
              (''package://example.com/pkg@1.2.0'', sample_pkg ''1.2.0'')]"
  let ?out = "[''package://example.com/pkg@1.2.0'' \<mapsto> sample_pkg ''1.2.0'',
               ''package://example.com/pkg@2.0.0'' \<mapsto> sample_pkg ''2.0.0'']"
  have run: "Deduplicate ?E sample_line ?ks = Ok ?out"
    by (simp add: Deduplicate_def sample_line_versioned) (simp add: sample_pkg_def sample_defs)
  have enum: "map_of ?ys = ?out" "distinct (map fst ?ys)"
    by simp_all
  have "Deduplicate_group ?E ?ys Map.empty =
     Ok [''package://example.com/pkg@2'' \<mapsto> sample_pkg ''2.0.0'',
         ''package://example.com/pkg@1'' \<mapsto> sample_pkg ''1.2.0'']"
    by (simp add: dedup_defs sample_defs)
  then have ord: "range_visits ?E ?ys ?ks'"
    by (simp add: range_visits_def range_order_def) auto
  from run Deduplicate_idempotent [OF run enum ord] show ?thesis by blast
qed

section \<open>Resolution\<close>

subsection \<open>A failed fetch\<close>

text \<open>
  C4. When \<open>Resolve\<close> reaches a dependency that is not memoized, is routed to the HTTP
  transport, and whose metadata GET is answered with status 404, it returns the status
  error, at whatever depth and position of the walk, and the memo cache is as it was before
  the fetch: it holds no metadata for that URI.
\<close>

theorem Resolve_http_404_not_cached:
  assumes "cache r (Dep_Uri dependency) = None"
    and "\<not> HasSuffix (Dep_Name dependency) ''.oci''"
    and "url_Parse E (Dep_Uri dependency) = Inr u"
    and "http_Get E (url_String E
           (u\<lparr>Scheme := (if http_plainHttp (httpResolver r) \<or> Contains (Dep_Name dependency) ''.plain''
                          then ''http'' else ''https'')\<rparr>)) = Inr resp"
    and "StatusCode resp = 404"
  shows "Resolve_loop fuel E ((k, dependency) # rest) result r =
           Some (Err (HttpStatusError (''Http get Error status: '' @ Status resp)),
                 r\<lparr>fetchLog := fetchLog r @ [Dep_Uri dependency]\<rparr>)
       \<and> Resolve fuel E r ((k, dependency) # rest) =
           Some (Err (HttpStatusError (''Http get Error status: '' @ Status resp)),
                 r\<lparr>fetchLog := fetchLog r @ [Dep_Uri dependency]\<rparr>)
       \<and> cache (r\<lparr>fetchLog := fetchLog r @ [Dep_Uri dependency]\<rparr>) (Dep_Uri dependency) = None"
  using assms
  by (cases fuel)
    (simp_all add: Resolve_def Resolve_fetch_def HttpResolver_ResolveMetadata_def Let_def)

theorem Resolve_http_404_not_cached_witness:
  "(\<exists>r'. Resolve_loop 0 (sample_env sample_web_404 sample_documents_404 [] [])
            [(''b'', sample_dep ''package://example.com/b@1.0.0'')] Map.empty
            (fresh_Resolver False ''/cache/package-2'')
          = Some (Err (HttpStatusError ''Http get Error status: 404 Not Found''), r')
        \<and> cache r' ''package://example.com/b@1.0.0'' = None)
   \<and> (\<exists>r'. Resolve 1 (sample_env sample_web_404 sample_documents_404 [] [])
            (fresh_Resolver False ''/cache/package-2'')
            [(''a'', sample_dep ''package://example.com/a@1.0.0'')]
          = Some (Err (HttpStatusError ''Http get Error status: 404 Not Found''), r')
        \<and> cache r' ''package://example.com/b@1.0.0'' = None
        \<and> fetchLog r' = [''package://example.com/a@1.0.0'', ''package://example.com/b@1.0.0''])"
proof -
  let ?E = "sample_env sample_web_404 sample_documents_404 [] []"
  let ?r = "fresh_Resolver False ''/cache/package-2''"
  let ?d = "sample_dep ''package://example.com/b@1.0.0''"
  let ?u = "\<lparr>Scheme = ''package'', Opaque = [], User = [], Host = ''example.com'',
             Path = ''/b@1.0.0'', RawPath = [],
             OmitHost = False, ForceQuery = False, RawQuery = [], Fragment = []\<rparr>"
  let ?resp = "\<lparr>StatusCode = 404, Status = ''404 Not Found'', Body = Inr ''no such page''\<rparr>"
  have h1: "cache ?r (Dep_Uri ?d) = None"
    by (simp add: fresh_defs)
  have h2: "\<not> HasSuffix (Dep_Name ?d) ''.oci''"
    by (simp add: sample_defs HasSuffix_def)
  have h3: "url_Parse ?E (Dep_Uri ?d) = Inr ?u"
    by (simp add: sample_defs)
  have h4: "http_Get ?E (url_String ?E
           (?u\<lparr>Scheme := (if http_plainHttp (httpResolver ?r) \<or> Contains (Dep_Name ?d) ''.plain''
                          then ''http'' else ''https'')\<rparr>)) = Inr ?resp"
    by (simp add: sample_defs fresh_defs sample_web_404_def)
  have h5: "StatusCode ?resp = 404"
    by simp
  have nested: "\<exists>r'. Resolve 1 ?E ?r [(''a'', sample_dep ''package://example.com/a@1.0.0'')]
          = Some (Err (HttpStatusError ''Http get Error status: 404 Not Found''), r')
        \<and> cache r' ''package://example.com/b@1.0.0'' = None
        \<and> fetchLog r' = [''package://example.com/a@1.0.0'', ''package://example.com/b@1.0.0'']"
    by (simp add: eval_defs sample_defs fresh_defs sample_web_404_def
        sample_documents_404_def)
  from Resolve_http_404_not_cached [OF h1 h2 h3 h4 h5, of 0 "''b''" "[]" Map.empty]
  have head: "\<exists>r'. Resolve_loop 0 ?E [(''b'', ?d)] Map.empty ?r
          = Some (Err (HttpStatusError ''Http get Error status: 404 Not Found''), r')
        \<and> cache r' ''package://example.com/b@1.0.0'' = None"
    by (auto simp: sample_dep_def Resolve_def simp del: Resolve_loop.simps)
  from head nested show ?thesis
    by blast
qed

subsection \<open>Runs as walks\<close>

lemma Resolve_loop_walk_0:
  "Resolve_loop 0 E deps result r = Some (out, r') \<Longrightarrow> walk E deps result r out r'"
proof (induction deps arbitrary: result r)
  case Nil
  then show ?case by (auto intro: walk_done)
next
  case (Cons x rest)
  obtain k d where x: "x = (k, d)" by (cases x)
  show ?case
  proof (cases "cache r (Dep_Uri d)")
    case (Some metadata)
    with Cons.prems x have "Resolve_loop 0 E rest (result(Dep_Uri d \<mapsto> metadata)) r = Some (out, r')"
      by simp
    from walk_cached [OF Some Cons.IH [OF this]] x show ?thesis by simp
  next
    case None
    show ?thesis
    proof (cases "Resolve_fetch E (ociResolver r) (httpResolver r) d")
      case (Ok fetched)
      let ?md = "backfill_names fetched"
      let ?r2 = "r\<lparr>fetchLog := fetchLog r @ [Dep_Uri d], cache := (cache r)(Dep_Uri d \<mapsto> ?md)\<rparr>"
      from Cons.prems x None Ok have leaf: "Dependencies ?md = []"
        by (auto simp: Let_def split: if_splits)
      with Cons.prems x None Ok
      have "Resolve_loop 0 E rest (result(Dep_Uri d \<mapsto> ?md)) ?r2 = Some (out, r')"
        by (simp add: Let_def)
      from walk_leaf [OF None Ok refl leaf Cons.IH [OF this]] x show ?thesis by simp
    next
      case (Err err)
      with Cons.prems x None have "out = Err err" "r' = r\<lparr>fetchLog := fetchLog r @ [Dep_Uri d]\<rparr>"
        by (simp_all add: Let_def)
      with walk_error [OF None Err] x show ?thesis by simp
    next
      case (Panic p)
      with Cons.prems x None have "out = Panic p" "r' = r\<lparr>fetchLog := fetchLog r @ [Dep_Uri d]\<rparr>"
        by (simp_all add: Let_def)
      with walk_panic [OF None Panic] x show ?thesis by simp
    qed
  qed
qed

lemma Resolve_loop_walk:
  "Resolve_loop fuel E deps result r = Some (out, r') \<Longrightarrow> walk E deps result r out r'"
proof (induction fuel arbitrary: deps result r out r')
  case 0
  then show ?case by (rule Resolve_loop_walk_0)
next
  case (Suc fuel)
  from Suc.prems show ?case
  proof (induction deps arbitrary: result r)
    case Nil
    then show ?case by (auto intro: walk_done)
  next
    case (Cons x rest)
    obtain k d where x: "x = (k, d)" by (cases x)
    show ?case
    proof (cases "cache r (Dep_Uri d)")
      case (Some metadata)
      with Cons.prems x
      have "Resolve_loop (Suc fuel) E rest (result(Dep_Uri d \<mapsto> metadata)) r = Some (out, r')"
        by simp
      from walk_cached [OF Some Cons.IH [OF this]] x show ?thesis by simp
    next
      case None
      show ?thesis
      proof (cases "Resolve_fetch E (ociResolver r) (httpResolver r) d")
        case (Ok fetched)
        let ?md = "backfill_names fetched"
        let ?r2 = "r\<lparr>fetchLog := fetchLog r @ [Dep_Uri d], cache := (cache r)(Dep_Uri d \<mapsto> ?md)\<rparr>"
        show ?thesis
        proof (cases "Dependencies ?md = []")
          case True
          with Cons.prems x None Ok
          have "Resolve_loop (Suc fuel) E rest (result(Dep_Uri d \<mapsto> ?md)) ?r2 = Some (out, r')"
            by (simp add: Let_def)
          from walk_leaf [OF None Ok refl True Cons.IH [OF this]] x show ?thesis by simp
        next
          case False
          with Cons.prems x None Ok obtain o1 r1 where
            sub: "Resolve_loop fuel E (Dependencies ?md) Map.empty ?r2 = Some (o1, r1)"
            by (auto simp: Let_def split: option.splits)
          note wsub = Suc.IH [OF sub]
          show ?thesis
          proof (cases o1)
            case (Ok subs)
            with Cons.prems x None \<open>Resolve_fetch E (ociResolver r) (httpResolver r) d = Ok fetched\<close>
              False sub
            have "Resolve_loop (Suc fuel) E rest (result(Dep_Uri d \<mapsto> ?md) ++ subs) r1 = Some (out, r')"
              by (simp add: Let_def)
            note wrest = Cons.IH [OF this]
            from wsub Ok have "walk E (Dependencies ?md) Map.empty ?r2 (Ok subs) r1" by simp
            from walk_sub [OF None \<open>Resolve_fetch E (ociResolver r) (httpResolver r) d = Ok fetched\<close>
                refl False this wrest] x
            show ?thesis by simp
          next
            case (Err err)
            with Cons.prems x None Ok False sub have eq: "out = o1" "r' = r1"
              by (simp_all add: Let_def)
            from Err have "\<And>subs. o1 \<noteq> Ok subs" by simp
            from walk_sub_error [OF None Ok refl False wsub this] eq x show ?thesis by simp
          next
            case (Panic p)
            with Cons.prems x None Ok False sub have eq: "out = o1" "r' = r1"
              by (simp_all add: Let_def)
            from Panic have "\<And>subs. o1 \<noteq> Ok subs" by simp
            from walk_sub_error [OF None Ok refl False wsub this] eq x show ?thesis by simp
          qed
        qed
      next
        case (Err err)
        with Cons.prems x None have "out = Err err" "r' = r\<lparr>fetchLog := fetchLog r @ [Dep_Uri d]\<rparr>"
          by (simp_all add: Let_def)
        with walk_error [OF None Err] x show ?thesis by simp
      next
        case (Panic p)
        with Cons.prems x None have "out = Panic p" "r' = r\<lparr>fetchLog := fetchLog r @ [Dep_Uri d]\<rparr>"
          by (simp_all add: Let_def)
        with walk_panic [OF None Panic] x show ?thesis by simp
      qed
    qed
  qed
qed

subsection \<open>The memo cache and the fetches of a walk\<close>

lemma map_le_upd_fresh: "m k = None \<Longrightarrow> m \<subseteq>\<^sub>m m(k \<mapsto> v)"
  by (auto simp: map_le_def)

lemma map_le_dom: "m \<subseteq>\<^sub>m m' \<Longrightarrow> dom m \<subseteq> dom m'"
  by (rule map_le_implies_dom_le)

lemma walk_cache_grows:
  "walk E deps result r out r' \<Longrightarrow>
     cache r \<subseteq>\<^sub>m cache r' \<and> ociResolver r' = ociResolver r \<and> httpResolver r' = httpResolver r"
proof (induction rule: walk.induct)
  case (walk_leaf r d fetched metadata rest result out r' k)
  have "cache r \<subseteq>\<^sub>m (cache r)(Dep_Uri d \<mapsto> metadata)"
    using walk_leaf.hyps(1) by (rule map_le_upd_fresh)
  with walk_leaf.IH show ?case by (auto intro: map_le_trans simp del: fun_upd_apply)
next
  case (walk_sub_error r d fetched metadata out r' k rest result)
  have "cache r \<subseteq>\<^sub>m (cache r)(Dep_Uri d \<mapsto> metadata)"
    using walk_sub_error.hyps(1) by (rule map_le_upd_fresh)
  with walk_sub_error.IH show ?case by (auto intro: map_le_trans simp del: fun_upd_apply)
next
  case (walk_sub r d fetched metadata subs r1 rest result out r' k)
  have "cache r \<subseteq>\<^sub>m (cache r)(Dep_Uri d \<mapsto> metadata)"
    using walk_sub.hyps(1) by (rule map_le_upd_fresh)
  with walk_sub.IH show ?case by (auto intro: map_le_trans simp del: fun_upd_apply)
qed simp_all

lemma walk_dom: "walk E deps result r out r' \<Longrightarrow> dom (cache r) \<subseteq> dom (cache r')"
  using walk_cache_grows map_le_dom by blast

lemma log_disjoint:
  assumes "N1 \<inter> insert u C = {}" "N2 \<inter> C1 = {}" "insert u C \<subseteq> C1" "u \<notin> C"
  shows "insert u (N1 \<union> N2) \<inter> C = {}" "u \<notin> N1" "u \<notin> N2"
  using assms by blast+

lemma log_upper:
  assumes "C1 \<subseteq> insert u C \<union> N1" "C' \<subseteq> C1 \<union> N2"
  shows "C' \<subseteq> C \<union> insert u (N1 \<union> N2)"
  using assms by blast

lemma log_lower:
  assumes "N1 \<subseteq> C1" "Q \<longrightarrow> N2 \<subseteq> C'" "insert u C \<subseteq> C1" "C1 \<subseteq> C'"
  shows "Q \<longrightarrow> insert u (N1 \<union> N2) \<subseteq> C'"
  using assms by blast

lemma log_apart:
  assumes "N1 \<subseteq> C1" "N2 \<inter> C1 = {}"
  shows "N1 \<inter> N2 = {}"
  using assms by blast

lemma walk_log:
  "walk E deps result r out r' \<Longrightarrow>
     \<exists>new. fetchLog r' = fetchLog r @ new \<and> distinct new \<and> set new \<inter> dom (cache r) = {} \<and>
           dom (cache r') \<subseteq> dom (cache r) \<union> set new \<and>
           ((\<exists>res. out = Ok res) \<longrightarrow> set new \<subseteq> dom (cache r'))"
proof (induction rule: walk.induct)
  case (walk_done result r)
  show ?case by (rule exI [of _ "[]"]) simp
next
  case (walk_cached r d metadata rest result out r' k)
  from walk_cached.IH show ?case .
next
  case (walk_error r d err k rest result)
  then have nd: "Dep_Uri d \<notin> dom (cache r)" by (simp add: domIff)
  show ?case by (rule exI [of _ "[Dep_Uri d]"]) (use nd in auto)
next
  case (walk_panic r d p k rest result)
  then have nd: "Dep_Uri d \<notin> dom (cache r)" by (simp add: domIff)
  show ?case by (rule exI [of _ "[Dep_Uri d]"]) (use nd in auto)
next
  case (walk_leaf r d fetched metadata rest result out r' k)
  from walk_leaf.IH obtain new where new:
    "fetchLog r' = (fetchLog r @ [Dep_Uri d]) @ new" "distinct new"
    "set new \<inter> insert (Dep_Uri d) (dom (cache r)) = {}"
    "dom (cache r') \<subseteq> insert (Dep_Uri d) (dom (cache r)) \<union> set new"
    "(\<exists>res. out = Ok res) \<longrightarrow> set new \<subseteq> dom (cache r')"
    by (auto simp del: fun_upd_apply)
  from walk_dom [OF walk_leaf.hyps(5)] have "Dep_Uri d \<in> dom (cache r')"
    by simp
  have nd: "Dep_Uri d \<notin> dom (cache r)"
    using walk_leaf.hyps(1) by (simp add: domIff)
  have seteq: "set (Dep_Uri d # new) = insert (Dep_Uri d) (set new)"
    by simp
  have log: "fetchLog r' = fetchLog r @ (Dep_Uri d # new)"
    using new(1) by simp
  have dist: "distinct (Dep_Uri d # new)"
    using new(2,3) by simp
  have disj: "set (Dep_Uri d # new) \<inter> dom (cache r) = {}"
    unfolding seteq using new(3) nd by blast
  have upper: "dom (cache r') \<subseteq> dom (cache r) \<union> set (Dep_Uri d # new)"
    unfolding seteq using new(4) by blast
  have lower: "(\<exists>res. out = Ok res) \<longrightarrow> set (Dep_Uri d # new) \<subseteq> dom (cache r')"
    unfolding seteq using new(5) \<open>Dep_Uri d \<in> dom (cache r')\<close> by blast
  from log dist disj upper lower show ?case
    by (intro exI [of _ "Dep_Uri d # new"] conjI) assumption+
next
  case (walk_sub_error r d fetched metadata out r' k rest result)
  from walk_sub_error.IH obtain new where new:
    "fetchLog r' = (fetchLog r @ [Dep_Uri d]) @ new" "distinct new"
    "set new \<inter> insert (Dep_Uri d) (dom (cache r)) = {}"
    "dom (cache r') \<subseteq> insert (Dep_Uri d) (dom (cache r)) \<union> set new"
    by (auto simp del: fun_upd_apply)
  have nd: "Dep_Uri d \<notin> dom (cache r)"
    using walk_sub_error.hyps(1) by (simp add: domIff)
  have seteq: "set (Dep_Uri d # new) = insert (Dep_Uri d) (set new)"
    by simp
  have log: "fetchLog r' = fetchLog r @ (Dep_Uri d # new)"
    using new(1) by simp
  have dist: "distinct (Dep_Uri d # new)"
    using new(2,3) by simp
  have disj: "set (Dep_Uri d # new) \<inter> dom (cache r) = {}"
    unfolding seteq using new(3) nd by blast
  have upper: "dom (cache r') \<subseteq> dom (cache r) \<union> set (Dep_Uri d # new)"
    unfolding seteq using new(4) by blast
  have lower: "(\<exists>res. out = Ok res) \<longrightarrow> set (Dep_Uri d # new) \<subseteq> dom (cache r')"
    using walk_sub_error.hyps(6) by blast
  from log dist disj upper lower show ?case
    by (intro exI [of _ "Dep_Uri d # new"] conjI) assumption+
next
  case (walk_sub r d fetched metadata subs r1 rest result out r' k)
  from walk_sub.IH(1) obtain new1 where new1:
    "fetchLog r1 = (fetchLog r @ [Dep_Uri d]) @ new1" "distinct new1"
    "set new1 \<inter> insert (Dep_Uri d) (dom (cache r)) = {}"
    "dom (cache r1) \<subseteq> insert (Dep_Uri d) (dom (cache r)) \<union> set new1"
    "set new1 \<subseteq> dom (cache r1)"
    by (auto simp del: fun_upd_apply)
  from walk_sub.IH(2) obtain new2 where new2:
    "fetchLog r' = fetchLog r1 @ new2" "distinct new2"
    "set new2 \<inter> dom (cache r1) = {}"
    "dom (cache r') \<subseteq> dom (cache r1) \<union> set new2"
    "(\<exists>res. out = Ok res) \<longrightarrow> set new2 \<subseteq> dom (cache r')"
    by auto
  from walk_dom [OF walk_sub.hyps(5)] have d1: "insert (Dep_Uri d) (dom (cache r)) \<subseteq> dom (cache r1)"
    by simp
  from walk_dom [OF walk_sub.hyps(6)] have d2: "dom (cache r1) \<subseteq> dom (cache r')" .
  have seteq: "set (Dep_Uri d # new1 @ new2) = insert (Dep_Uri d) (set new1 \<union> set new2)"
    by simp
  have log: "fetchLog r' = fetchLog r @ (Dep_Uri d # new1 @ new2)"
    using new1(1) new2(1) by simp
  have nd: "Dep_Uri d \<notin> dom (cache r)"
    using walk_sub.hyps(1) by (simp add: domIff)
  note dj = log_disjoint [OF new1(3) new2(3) d1 nd]
  have dist: "distinct (Dep_Uri d # new1 @ new2)"
    using dj(2,3) log_apart [OF new1(5) new2(3)] new1(2) new2(2) by simp
  have disj: "set (Dep_Uri d # new1 @ new2) \<inter> dom (cache r) = {}"
    by (subst seteq) (rule dj(1))
  have upper: "dom (cache r') \<subseteq> dom (cache r) \<union> set (Dep_Uri d # new1 @ new2)"
    by (subst seteq) (rule log_upper [OF new1(4) new2(4)])
  have lower: "(\<exists>res. out = Ok res) \<longrightarrow> set (Dep_Uri d # new1 @ new2) \<subseteq> dom (cache r')"
    by (subst seteq) (rule log_lower [OF new1(5) new2(5) d1 d2])
  from log dist disj upper lower show ?case
    by (intro exI [of _ "Dep_Uri d # new1 @ new2"] conjI) assumption+
qed

subsection \<open>The result of a walk\<close>

lemma uris_of_Nil [simp]: "uris_of [] = {}"
  by (simp add: uris_of_def)

lemma uris_of_Cons [simp]: "uris_of ((k, d) # rest) = insert (Dep_Uri d) (uris_of rest)"
  by (simp add: uris_of_def)

lemma map_le_upd_both: "f \<subseteq>\<^sub>m g \<Longrightarrow> f(k \<mapsto> v) \<subseteq>\<^sub>m g(k \<mapsto> v)"
  by (auto simp: map_le_def)

lemma map_le_upd_known: "f \<subseteq>\<^sub>m g \<Longrightarrow> g k = Some v \<Longrightarrow> f(k \<mapsto> v) \<subseteq>\<^sub>m g"
  by (auto simp: map_le_def)

lemma map_le_Some: "f \<subseteq>\<^sub>m g \<Longrightarrow> f k = Some v \<Longrightarrow> g k = Some v"
  by (auto simp: map_le_def dom_def)

lemma post_done: "result \<subseteq>\<^sub>m c \<Longrightarrow> walk_post result [] c c result"
  by (simp add: walk_post_def)

lemma post_cached:
  assumes "walk_post (result(u \<mapsto> md)) rest c c' res" and "u = Dep_Uri d"
  shows "walk_post result ((k, d) # rest) c c' res"
  using assms unfolding walk_post_def by auto

lemma post_leaf:
  assumes post: "walk_post (result(u \<mapsto> md)) rest (c(u \<mapsto> md)) c' res"
    and u: "u = Dep_Uri d" and grow: "c(u \<mapsto> md) \<subseteq>\<^sub>m c'" and leaf: "Dependencies md = []"
  shows "walk_post result ((k, d) # rest) c c' res"
proof -
  from post have a: "res \<subseteq>\<^sub>m c'" and b: "insert u (dom result) \<union> uris_of rest \<subseteq> dom res"
    and cc: "dom c' \<subseteq> insert u (dom c) \<union> dom res"
    and cl: "\<And>x m. (c(u \<mapsto> md)) x = None \<Longrightarrow> c' x = Some m \<Longrightarrow> uris_of (Dependencies m) \<subseteq> dom res"
    unfolding walk_post_def by auto
  have c'u: "c' u = Some md" using map_le_Some [OF grow, of u md] by simp
  have 1: "dom result \<union> uris_of ((k, d) # rest) \<subseteq> dom res"
    using b u by auto
  have 2: "dom c' \<subseteq> dom c \<union> dom res"
    using b cc by blast
  have 3: "\<forall>x m. c x = None \<longrightarrow> c' x = Some m \<longrightarrow> uris_of (Dependencies m) \<subseteq> dom res"
  proof (intro allI impI)
    fix x m assume x: "c x = None" "c' x = Some m"
    show "uris_of (Dependencies m) \<subseteq> dom res"
    proof (cases "x = u")
      case True
      with x c'u have "m = md" by simp
      with leaf show ?thesis by simp
    next
      case False
      with x have "(c(u \<mapsto> md)) x = None" by simp
      from cl [OF this x(2)] show ?thesis .
    qed
  qed
  from a 1 2 3 show ?thesis unfolding walk_post_def by blast
qed

lemma post_sub:
  assumes sub: "walk_post Map.empty (Dependencies md) (c(u \<mapsto> md)) c1 subs"
    and post: "walk_post (result(u \<mapsto> md) ++ subs) rest c1 c' res"
    and u: "u = Dep_Uri d" and grow1: "c(u \<mapsto> md) \<subseteq>\<^sub>m c1" and grow2: "c1 \<subseteq>\<^sub>m c'"
  shows "walk_post result ((k, d) # rest) c c' res"
proof -
  from sub have s1: "uris_of (Dependencies md) \<subseteq> dom subs"
    and s2: "dom c1 \<subseteq> insert u (dom c) \<union> dom subs"
    and s3: "\<And>x m. (c(u \<mapsto> md)) x = None \<Longrightarrow> c1 x = Some m \<Longrightarrow> uris_of (Dependencies m) \<subseteq> dom subs"
    unfolding walk_post_def by auto
  from post have a: "res \<subseteq>\<^sub>m c'"
    and b: "dom (result(u \<mapsto> md) ++ subs) \<union> uris_of rest \<subseteq> dom res"
    and cc: "dom c' \<subseteq> dom c1 \<union> dom res"
    and cl: "\<And>x m. c1 x = None \<Longrightarrow> c' x = Some m \<Longrightarrow> uris_of (Dependencies m) \<subseteq> dom res"
    unfolding walk_post_def by auto
  have b': "insert u (dom result) \<union> dom subs \<union> uris_of rest \<subseteq> dom res"
    using b by (simp add: Un_commute)
  have c1u: "c1 u = Some md" using map_le_Some [OF grow1, of u md] by simp
  have 1: "dom result \<union> uris_of ((k, d) # rest) \<subseteq> dom res"
    using b' u by auto
  have 2: "dom c' \<subseteq> dom c \<union> dom res"
    using b' cc s2 by blast
  have 3: "\<forall>x m. c x = None \<longrightarrow> c' x = Some m \<longrightarrow> uris_of (Dependencies m) \<subseteq> dom res"
  proof (intro allI impI)
    fix x m assume x: "c x = None" "c' x = Some m"
    show "uris_of (Dependencies m) \<subseteq> dom res"
    proof (cases "c1 x")
      case None
      from cl [OF None x(2)] show ?thesis .
    next
      case (Some m1)
      from map_le_Some [OF grow2 Some] x(2) have m: "m = m1" by simp
      show ?thesis
      proof (cases "x = u")
        case True
        with Some c1u m have "m = md" by simp
        with s1 b' show ?thesis by blast
      next
        case False
        with x have "(c(u \<mapsto> md)) x = None" by simp
        from s3 [OF this Some] m b' show ?thesis by blast
      qed
    qed
  qed
  from a 1 2 3 show ?thesis unfolding walk_post_def by blast
qed

lemma walk_result:
  "walk E deps result r out r' \<Longrightarrow> result \<subseteq>\<^sub>m cache r \<Longrightarrow> out = Ok res \<Longrightarrow>
     walk_post result deps (cache r) (cache r') res"
proof (induction arbitrary: res rule: walk.induct)
  case (walk_done result r)
  then show ?case by (simp add: post_done)
next
  case (walk_cached r d metadata rest result out r' k)
  have "result(Dep_Uri d \<mapsto> metadata) \<subseteq>\<^sub>m cache r"
    using walk_cached.prems(1) walk_cached.hyps(1) by (rule map_le_upd_known)
  from walk_cached.IH [OF this walk_cached.prems(2)] show ?case
    by (rule post_cached) simp
next
  case (walk_error r d err k rest result)
  then show ?case by simp
next
  case (walk_panic r d p k rest result)
  then show ?case by simp
next
  case (walk_leaf r d fetched metadata rest result out r' k)
  let ?r2 = "r\<lparr>fetchLog := fetchLog r @ [Dep_Uri d], cache := (cache r)(Dep_Uri d \<mapsto> metadata)\<rparr>"
  have c2: "cache ?r2 = (cache r)(Dep_Uri d \<mapsto> metadata)" by simp
  have pre: "result(Dep_Uri d \<mapsto> metadata) \<subseteq>\<^sub>m cache ?r2"
    unfolding c2 using walk_leaf.prems(1) by (rule map_le_upd_both)
  have post: "walk_post (result(Dep_Uri d \<mapsto> metadata)) rest ((cache r)(Dep_Uri d \<mapsto> metadata))
                (cache r') res"
    using walk_leaf.IH [OF pre walk_leaf.prems(2)] unfolding c2 .
  have grow: "(cache r)(Dep_Uri d \<mapsto> metadata) \<subseteq>\<^sub>m cache r'"
    using walk_cache_grows [OF walk_leaf.hyps(5)] unfolding c2 by blast
  from post refl grow walk_leaf.hyps(4) show ?case by (rule post_leaf)
next
  case (walk_sub_error r d fetched metadata out r' k rest result)
  from walk_sub_error.hyps(6) [of res] walk_sub_error.prems(2) show ?case by simp
next
  case (walk_sub r d fetched metadata subs r1 rest result out r' k)
  let ?r2 = "r\<lparr>fetchLog := fetchLog r @ [Dep_Uri d], cache := (cache r)(Dep_Uri d \<mapsto> metadata)\<rparr>"
  have c2: "cache ?r2 = (cache r)(Dep_Uri d \<mapsto> metadata)" by simp
  have "Map.empty \<subseteq>\<^sub>m cache ?r2" by simp
  from walk_sub.IH(1) [OF this refl]
  have sub: "walk_post Map.empty (Dependencies metadata) ((cache r)(Dep_Uri d \<mapsto> metadata))
               (cache r1) subs"
    unfolding c2 .
  have grow1: "(cache r)(Dep_Uri d \<mapsto> metadata) \<subseteq>\<^sub>m cache r1"
    using walk_cache_grows [OF walk_sub.hyps(5)] unfolding c2 by blast
  have grow2: "cache r1 \<subseteq>\<^sub>m cache r'"
    using walk_cache_grows [OF walk_sub.hyps(6)] by blast
  have "result(Dep_Uri d \<mapsto> metadata) \<subseteq>\<^sub>m (cache r)(Dep_Uri d \<mapsto> metadata)"
    using walk_sub.prems(1) by (rule map_le_upd_both)
  then have "result(Dep_Uri d \<mapsto> metadata) \<subseteq>\<^sub>m cache r1"
    using grow1 by (rule map_le_trans)
  moreover have "subs \<subseteq>\<^sub>m cache r1"
    using sub unfolding walk_post_def by blast
  ultimately have pre: "result(Dep_Uri d \<mapsto> metadata) ++ subs \<subseteq>\<^sub>m cache r1"
    by (rule map_add_le_mapI)
  from walk_sub.IH(2) [OF pre walk_sub.prems(2)]
  have post: "walk_post (result(Dep_Uri d \<mapsto> metadata) ++ subs) rest (cache r1) (cache r') res" .
  from sub post refl grow1 grow2 show ?case by (rule post_sub)
qed

subsection \<open>Termination\<close>

lemma uris_of_backfill [simp]:
  "uris_of (Dependencies (backfill_names md)) = uris_of (Dependencies md)"
  by (force simp: uris_of_def backfill_names_def image_iff)

lemma Resolve_loop_cached:
  "cache r (Dep_Uri d) = Some md \<Longrightarrow>
     Resolve_loop fuel E ((k, d) # rest) result r =
       Resolve_loop fuel E rest (result(Dep_Uri d \<mapsto> md)) r"
  by (cases fuel) simp_all

lemma Resolve_loop_error:
  "cache r (Dep_Uri d) = None \<Longrightarrow>
   Resolve_fetch E (ociResolver r) (httpResolver r) d = Err err \<Longrightarrow>
     Resolve_loop fuel E ((k, d) # rest) result r =
       Some (Err err, r\<lparr>fetchLog := fetchLog r @ [Dep_Uri d]\<rparr>)"
  by (cases fuel) (simp_all add: Let_def)

lemma Resolve_loop_panic:
  "cache r (Dep_Uri d) = None \<Longrightarrow>
   Resolve_fetch E (ociResolver r) (httpResolver r) d = Panic p \<Longrightarrow>
     Resolve_loop fuel E ((k, d) # rest) result r =
       Some (Panic p, r\<lparr>fetchLog := fetchLog r @ [Dep_Uri d]\<rparr>)"
  by (cases fuel) (simp_all add: Let_def)

lemma Resolve_loop_leaf:
  "cache r (Dep_Uri d) = None \<Longrightarrow>
   Resolve_fetch E (ociResolver r) (httpResolver r) d = Ok fetched \<Longrightarrow>
   Dependencies (backfill_names fetched) = [] \<Longrightarrow>
     Resolve_loop fuel E ((k, d) # rest) result r =
       Resolve_loop fuel E rest (result(Dep_Uri d \<mapsto> backfill_names fetched))
         (r\<lparr>fetchLog := fetchLog r @ [Dep_Uri d],
            cache := (cache r)(Dep_Uri d \<mapsto> backfill_names fetched)\<rparr>)"
  by (cases fuel) (simp_all add: Let_def)

lemma Resolve_loop_sub:
  "cache r (Dep_Uri d) = None \<Longrightarrow>
   Resolve_fetch E (ociResolver r) (httpResolver r) d = Ok fetched \<Longrightarrow>
   Dependencies (backfill_names fetched) \<noteq> [] \<Longrightarrow>
     Resolve_loop (Suc fuel) E ((k, d) # rest) result r =
       (case Resolve_loop fuel E (Dependencies (backfill_names fetched)) Map.empty
               (r\<lparr>fetchLog := fetchLog r @ [Dep_Uri d],
                  cache := (cache r)(Dep_Uri d \<mapsto> backfill_names fetched)\<rparr>) of
          None \<Rightarrow> None
        | Some (Err err, r1) \<Rightarrow> Some (Err err, r1)
        | Some (Panic p, r1) \<Rightarrow> Some (Panic p, r1)
        | Some (Ok subs, r1) \<Rightarrow>
            Resolve_loop (Suc fuel) E rest
              (result(Dep_Uri d \<mapsto> backfill_names fetched) ++ subs) r1)"
  by (simp add: Let_def)

lemma card_uncached_less:
  assumes "finite U" "u \<in> U" "u \<notin> C"
  shows "card (U - insert u C) < card (U - C)"
proof -
  have "U - insert u C \<subset> U - C" using assms by blast
  with assms(1) show ?thesis by (simp add: psubset_card_mono)
qed

lemma card_uncached_mono:
  assumes "finite U" "C \<subseteq> C'"
  shows "card (U - C') \<le> card (U - C)"
  using assms by (intro card_mono) auto

lemma Resolve_loop_terminates:
  assumes fin: "finite (Dep_Uri ` D)" and closed: "dep_closed E oci http D"
  shows "deps_of deps \<subseteq> D \<Longrightarrow> ociResolver r = oci \<Longrightarrow> httpResolver r = http \<Longrightarrow>
         card (Dep_Uri ` D - dom (cache r)) \<le> fuel \<Longrightarrow>
         \<exists>out r'. Resolve_loop fuel E deps result r = Some (out, r') \<and>
                  (dep_total E oci http D \<longrightarrow> (\<exists>res. out = Ok res))"
proof (induction fuel arbitrary: deps result r rule: less_induct)
  case (less fuel)
  from less.prems show ?case
  proof (induction deps arbitrary: result r)
    case Nil
    then show ?case by simp
  next
    case (Cons x rest)
    obtain k d where x: "x = (k, d)" by (cases x)
    from Cons.prems(1) x have dD: "d \<in> D" and restU: "deps_of rest \<subseteq> D"
      by (simp_all add: deps_of_def)
    from dD have dU: "Dep_Uri d \<in> Dep_Uri ` D" by (rule imageI)
    note res_eq = Cons.prems(2,3)
    show ?case
    proof (cases "cache r (Dep_Uri d)")
      case (Some md)
      from Cons.IH [OF restU res_eq Cons.prems(4)] Resolve_loop_cached [OF Some] x
      show ?thesis by simp
    next
      case None
      then have nd: "Dep_Uri d \<notin> dom (cache r)" by (simp add: domIff)
      show ?thesis
      proof (cases "Resolve_fetch E (ociResolver r) (httpResolver r) d")
        case (Err err)
        have "\<not> dep_total E oci http D"
          using Err dD res_eq unfolding dep_total_def by force
        with Resolve_loop_error [OF None Err] x show ?thesis by simp
      next
        case (Panic p)
        have "\<not> dep_total E oci http D"
          using Panic dD res_eq unfolding dep_total_def by force
        with Resolve_loop_panic [OF None Panic] x show ?thesis by simp
      next
        case (Ok fetched)
        let ?md = "backfill_names fetched"
        let ?r2 = "r\<lparr>fetchLog := fetchLog r @ [Dep_Uri d],
                    cache := (cache r)(Dep_Uri d \<mapsto> ?md)\<rparr>"
        have c2: "dom (cache ?r2) = insert (Dep_Uri d) (dom (cache r))" by simp
        have res2: "ociResolver ?r2 = oci" "httpResolver ?r2 = http"
          using res_eq by simp_all
        have less2: "card (Dep_Uri ` D - dom (cache ?r2)) < card (Dep_Uri ` D - dom (cache r))"
          unfolding c2 using fin dU nd by (rule card_uncached_less)
        show ?thesis
        proof (cases "Dependencies ?md = []")
          case True
          have "card (Dep_Uri ` D - dom (cache ?r2)) \<le> fuel"
            using less2 Cons.prems(4) by simp
          from Cons.IH [OF restU res2 this] Resolve_loop_leaf [OF None Ok True] x
          show ?thesis by simp
        next
          case False
          from less2 Cons.prems(4) obtain n where fuel: "fuel = Suc n"
            and n: "card (Dep_Uri ` D - dom (cache ?r2)) \<le> n"
            by (cases fuel) auto
          have subU: "deps_of (Dependencies ?md) \<subseteq> D"
            using closed dD Ok res_eq unfolding dep_closed_def by blast
          have "n < fuel" using fuel by simp
          from less.IH [OF this subU res2 n, where result = Map.empty] obtain o1 r1 where
            sub: "Resolve_loop n E (Dependencies ?md) Map.empty ?r2 = Some (o1, r1)"
            and tot: "dep_total E oci http D \<longrightarrow> (\<exists>res. o1 = Ok res)"
            by blast
          note w = Resolve_loop_walk [OF sub]
          from walk_cache_grows [OF w] res2 have res1: "ociResolver r1 = oci" "httpResolver r1 = http"
            by simp_all
          from walk_dom [OF w] have "dom (cache r) \<subseteq> dom (cache r1)"
            unfolding c2 by blast
          from card_uncached_mono [OF fin this] Cons.prems(4)
          have le1: "card (Dep_Uri ` D - dom (cache r1)) \<le> fuel" by simp
          note step = Resolve_loop_sub [OF None Ok False, where fuel = n and k = k and rest = rest and result = result]
          show ?thesis
          proof (cases o1)
            case (Ok subs)
            from Cons.IH [OF restU res1 le1, where result = "result(Dep_Uri d \<mapsto> ?md) ++ subs"]
              step sub Ok x fuel
            show ?thesis by simp
          next
            case (Err err)
            with step sub tot x fuel show ?thesis by simp
          next
            case (Panic p)
            with step sub tot x fuel show ?thesis by simp
          qed
        qed
      qed
    qed
  qed
qed

lemma map_le_full:
  assumes "f \<subseteq>\<^sub>m g" and "dom g \<subseteq> dom f"
  shows "f = g"
proof (rule ext)
  fix x
  show "f x = g x"
  proof (cases "x \<in> dom f")
    case True
    with assms(1) show ?thesis by (simp add: map_le_def)
  next
    case False
    with assms(2) have "x \<notin> dom g" by blast
    with False show ?thesis by (simp add: domIff)
  qed
qed

lemma distinct_count_list_1: "distinct xs \<Longrightarrow> x \<in> set xs \<Longrightarrow> count_list xs x = 1"
proof (induction xs)
  case Nil
  then show ?case by simp
next
  case (Cons y ys)
  show ?case
  proof (cases "x = y")
    case True
    with Cons.prems(1) have "x \<notin> set ys" by simp
    then have "count_list ys x = 0" by (simp add: count_list_0_iff)
    with True show ?thesis by simp
  next
    case False
    with Cons show ?thesis by simp
  qed
qed

lemma closed_reach:
  assumes cl: "\<forall>u m. res u = Some m \<longrightarrow> uris_of (Dependencies m) \<subseteq> dom res"
    and "(depends_on res)\<^sup>*\<^sup>* u v" and "u \<in> dom res"
  shows "v \<in> dom res"
  using assms(2,3)
proof (induction rule: rtranclp_induct)
  case base
  then show ?case .
next
  case (step y z)
  from step.hyps(2) obtain m where "res y = Some m" "z \<in> uris_of (Dependencies m)"
    unfolding depends_on_def by blast
  with cl show ?case by blast
qed

subsection \<open>A cycle of two packages\<close>

lemmas cycle_defs = eval_defs sample_defs fresh_defs sample_web_cycle_def
  sample_documents_cycle_def sample_cycle_result_def sample_cycle_a_def sample_cycle_b_def

lemma sample_cycle_closed:
  "dep_closed (sample_env sample_web_cycle sample_documents_cycle [] [])
     (ociResolver (fresh_Resolver False ''/cache/package-2''))
     (httpResolver (fresh_Resolver False ''/cache/package-2'')) sample_cycle_deps"
  by (simp add: dep_closed_def sample_cycle_deps_def deps_of_def cycle_defs)

lemma sample_cycle_total:
  "dep_total (sample_env sample_web_cycle sample_documents_cycle [] [])
     (ociResolver (fresh_Resolver False ''/cache/package-2''))
     (httpResolver (fresh_Resolver False ''/cache/package-2'')) sample_cycle_deps"
  by (simp add: dep_total_def sample_cycle_deps_def cycle_defs)

lemma sample_cycle_run:
  "Resolve 2 (sample_env sample_web_cycle sample_documents_cycle [] [])
      (fresh_Resolver False ''/cache/package-2'')
      [(''a'', sample_dep ''package://example.com/a@1.0.0'')]
   = Some (Ok sample_cycle_result, sample_cycle_warm)"
  apply (simp add: cycle_defs sample_cycle_warm_def numeral_2_eq_2)
  apply (rule ext)
  apply simp
  done

lemma sample_cycle_again:
  "Resolve 2 (sample_env sample_web_cycle sample_documents_cycle [] []) sample_cycle_warm
      [(''a'', sample_dep ''package://example.com/a@1.0.0'')]
   = Some (Ok [''package://example.com/a@1.0.0'' \<mapsto> sample_cycle_a], sample_cycle_warm)"
  by (simp add: cycle_defs sample_cycle_warm_def numeral_2_eq_2)

lemma sample_cycle_edges:
  "depends_on sample_cycle_result ''package://example.com/a@1.0.0'' ''package://example.com/b@1.0.0''"
  "depends_on sample_cycle_result ''package://example.com/b@1.0.0'' ''package://example.com/a@1.0.0''"
  by (simp_all add: sample_cycle_result_def sample_cycle_a_def sample_cycle_b_def depends_on_def uris_of_def backfill_names_def sample_defs)

subsection \<open>Cycles\<close>

text \<open>
  C1. The claim is about every run of \<open>Resolve\<close> on a graph with a cycle. A resolver that
  has resolved \<open>a\<close>, where \<open>a\<close> and \<open>b\<close> depend on each other, holds both in its memo cache;
  asked for \<open>a\<close> again it finds \<open>a\<close> memoized and returns \<open>a\<close> alone: \<open>b\<close>, a URI of the
  cycle, is not in the result, and nothing is fetched.
\<close>

theorem Resolve_warm_cache_skips_cycle:
  "Resolve 2 (sample_env sample_web_cycle sample_documents_cycle [] [])
      (fresh_Resolver False ''/cache/package-2'')
      [(''a'', sample_dep ''package://example.com/a@1.0.0'')]
     = Some (Ok sample_cycle_result, sample_cycle_warm)
   \<and> depends_on sample_cycle_result
        ''package://example.com/a@1.0.0'' ''package://example.com/b@1.0.0''
   \<and> depends_on sample_cycle_result
        ''package://example.com/b@1.0.0'' ''package://example.com/a@1.0.0''
   \<and> Resolve 2 (sample_env sample_web_cycle sample_documents_cycle [] []) sample_cycle_warm
      [(''a'', sample_dep ''package://example.com/a@1.0.0'')]
     = Some (Ok [''package://example.com/a@1.0.0'' \<mapsto> sample_cycle_a], sample_cycle_warm)
   \<and> [''package://example.com/a@1.0.0'' \<mapsto> sample_cycle_a] ''package://example.com/b@1.0.0''
     = None"
  using sample_cycle_run sample_cycle_again sample_cycle_edges by simp

text \<open>
  C1, as amended. Let the dependency graph be finite (cycles are allowed) and let the memo
  cache of the resolver be empty, as \<open>NewResolver\<close> leaves it. With fuel at least the number
  of URIs of the graph \<open>Resolve\<close> returns, and no URI is fetched twice. When every fetch of
  the graph succeeds it returns a result; and in a result every URI that can be reached from
  a root along dependencies, so every URI of a cycle among them, is a key (a map holds a key
  once) and was fetched exactly once.
\<close>

theorem Resolve_visits_cycle_once:
  assumes fin: "finite D"
    and roots: "deps_of dependencies \<subseteq> D"
    and closed: "dep_closed E (ociResolver r) (httpResolver r) D"
    and fresh: "cache r = Map.empty"
    and fuel: "card (Dep_Uri ` D) \<le> fuel"
  shows "\<exists>out r' new. Resolve fuel E r dependencies = Some (out, r') \<and>
           fetchLog r' = fetchLog r @ new \<and> distinct new \<and>
           (dep_total E (ociResolver r) (httpResolver r) D \<longrightarrow> (\<exists>res. out = Ok res)) \<and>
           (\<forall>res. out = Ok res \<longrightarrow>
              res = cache r' \<and> set new = dom res \<and>
              (\<forall>u \<in> uris_of dependencies. \<forall>v. (depends_on res)\<^sup>*\<^sup>* u v \<longrightarrow>
                 v \<in> dom res \<and> count_list new v = 1))"
proof -
  have finU: "finite (Dep_Uri ` D)" using fin by simp
  have "card (Dep_Uri ` D - dom (cache r)) \<le> fuel"
    using fuel fresh by simp
  from Resolve_loop_terminates [OF finU closed roots refl refl this, where result = Map.empty]
  obtain out r' where run: "Resolve_loop fuel E dependencies Map.empty r = Some (out, r')"
    and tot: "dep_total E (ociResolver r) (httpResolver r) D \<longrightarrow> (\<exists>res. out = Ok res)"
    by blast
  note w = Resolve_loop_walk [OF run]
  from walk_log [OF w] fresh obtain new where new: "fetchLog r' = fetchLog r @ new" "distinct new"
    "dom (cache r') \<subseteq> set new" "(\<exists>res. out = Ok res) \<longrightarrow> set new \<subseteq> dom (cache r')"
    by auto
  have ok: "\<forall>res. out = Ok res \<longrightarrow>
              res = cache r' \<and> set new = dom res \<and>
              (\<forall>u \<in> uris_of dependencies. \<forall>v. (depends_on res)\<^sup>*\<^sup>* u v \<longrightarrow>
                 v \<in> dom res \<and> count_list new v = 1)"
  proof (intro allI impI)
    fix res assume out: "out = Ok res"
    have "Map.empty \<subseteq>\<^sub>m cache r" by simp
    from walk_result [OF w this out] fresh
    have le: "res \<subseteq>\<^sub>m cache r'" and rts: "uris_of dependencies \<subseteq> dom res"
      and full: "dom (cache r') \<subseteq> dom res"
      and cl: "\<forall>u m. cache r' u = Some m \<longrightarrow> uris_of (Dependencies m) \<subseteq> dom res"
      unfolding walk_post_def by simp_all
    from le full have eq: "res = cache r'" by (rule map_le_full)
    have log: "set new = dom res"
      using new(3,4) out eq by auto
    have reach: "\<forall>u \<in> uris_of dependencies. \<forall>v. (depends_on res)\<^sup>*\<^sup>* u v \<longrightarrow>
                 v \<in> dom res \<and> count_list new v = 1"
    proof (intro ballI allI impI)
      fix u v assume u: "u \<in> uris_of dependencies" and uv: "(depends_on res)\<^sup>*\<^sup>* u v"
      from u rts have "u \<in> dom res" by blast
      with cl uv have v: "v \<in> dom res" unfolding eq [symmetric] by (rule closed_reach)
      with log new(2) have "count_list new v = 1"
        by (simp add: distinct_count_list_1)
      with v show "v \<in> dom res \<and> count_list new v = 1" ..
    qed
    from eq log reach
    show "res = cache r' \<and> set new = dom res \<and>
              (\<forall>u \<in> uris_of dependencies. \<forall>v. (depends_on res)\<^sup>*\<^sup>* u v \<longrightarrow>
                 v \<in> dom res \<and> count_list new v = 1)"
      by blast
  qed
  from run new(1,2) tot ok show ?thesis
    unfolding Resolve_def by blast
qed

theorem Resolve_visits_cycle_once_witness:
  "\<exists>res r'. Resolve 2 (sample_env sample_web_cycle sample_documents_cycle [] [])
               (fresh_Resolver False ''/cache/package-2'')
               [(''a'', sample_dep ''package://example.com/a@1.0.0'')] = Some (Ok res, r')
     \<and> depends_on res ''package://example.com/a@1.0.0'' ''package://example.com/b@1.0.0''
     \<and> depends_on res ''package://example.com/b@1.0.0'' ''package://example.com/a@1.0.0''
     \<and> dom res = {''package://example.com/a@1.0.0'', ''package://example.com/b@1.0.0''}
     \<and> fetchLog r' = [''package://example.com/a@1.0.0'', ''package://example.com/b@1.0.0'']
     \<and> count_list (fetchLog r') ''package://example.com/a@1.0.0'' = 1
     \<and> count_list (fetchLog r') ''package://example.com/b@1.0.0'' = 1"
proof -
  let ?E = "sample_env sample_web_cycle sample_documents_cycle [] []"
  let ?r = "fresh_Resolver False ''/cache/package-2''"
  let ?A = "''package://example.com/a@1.0.0''"
  let ?B = "''package://example.com/b@1.0.0''"
  let ?roots = "[(''a'', sample_dep ?A)]"
  have fin: "finite sample_cycle_deps" by (simp add: sample_cycle_deps_def)
  have roots: "deps_of ?roots \<subseteq> sample_cycle_deps"
    by (simp add: deps_of_def sample_cycle_deps_def)
  have fresh: "cache ?r = Map.empty" by (simp add: fresh_defs)
  have "Dep_Uri ` sample_cycle_deps = {?A, ?B}"
    by (simp add: sample_cycle_deps_def sample_dep_def insert_commute)
  then have fuel: "card (Dep_Uri ` sample_cycle_deps) \<le> 2"
    by simp
  from Resolve_visits_cycle_once [OF fin roots sample_cycle_closed fresh fuel]
  obtain out r' new where run0: "Resolve 2 ?E ?r ?roots = Some (out, r')"
    and log: "fetchLog r' = fetchLog ?r @ new"
    and tot: "dep_total ?E (ociResolver ?r) (httpResolver ?r) sample_cycle_deps
                \<longrightarrow> (\<exists>res. out = Ok res)"
    and ok0: "\<forall>res. out = Ok res \<longrightarrow> res = cache r' \<and> set new = dom res \<and>
              (\<forall>u \<in> uris_of ?roots. \<forall>v. (depends_on res)\<^sup>*\<^sup>* u v \<longrightarrow>
                 v \<in> dom res \<and> count_list new v = 1)"
    by (elim exE conjE)
  from tot sample_cycle_total obtain res where out: "out = Ok res"
    by (elim impE exE)
  from run0 out have run: "Resolve 2 ?E ?r ?roots = Some (Ok res, r')"
    by (simp only:)
  from ok0 out have ok: "res = cache r' \<and> set new = dom res \<and>
              (\<forall>u \<in> uris_of ?roots. \<forall>v. (depends_on res)\<^sup>*\<^sup>* u v \<longrightarrow>
                 v \<in> dom res \<and> count_list new v = 1)"
    by (elim allE impE)
  from run have "Some (Ok res, r') = Some (Ok sample_cycle_result, sample_cycle_warm)"
    by (simp only: sample_cycle_run)
  then have res: "res = sample_cycle_result" and r': "r' = sample_cycle_warm"
    by simp_all
  from log r' have new: "new = [?A, ?B]"
    by (simp add: sample_cycle_warm_def fresh_defs)
  have ab: "depends_on res ?A ?B" and ba: "depends_on res ?B ?A"
    unfolding res by (rule sample_cycle_edges)+
  have root: "?A \<in> uris_of ?roots" by (simp add: sample_dep_def)
  from ok have "\<forall>u \<in> uris_of ?roots. \<forall>v. (depends_on res)\<^sup>*\<^sup>* u v \<longrightarrow>
                 v \<in> dom res \<and> count_list new v = 1"
    by (elim conjE)
  from this [rule_format, OF root] have reach:
    "\<And>v. (depends_on res)\<^sup>*\<^sup>* ?A v \<Longrightarrow> v \<in> dom res \<and> count_list new v = 1" .
  have logr: "fetchLog r' = [?A, ?B]"
    using log new by (simp add: fresh_defs)
  have "count_list new ?A = 1"
    using reach [of ?A] by blast
  then have a: "count_list (fetchLog r') ?A = 1"
    by (simp only: logr new)
  from ab have "(depends_on res)\<^sup>*\<^sup>* ?A ?B" by (rule r_into_rtranclp)
  then have "count_list new ?B = 1"
    using reach [of ?B] by blast
  then have b: "count_list (fetchLog r') ?B = 1"
    by (simp only: logr new)
  have dom: "dom res = {?A, ?B}"
    unfolding res by (auto simp: sample_cycle_result_def)
  from run ab ba dom logr a b show ?thesis
    by (intro exI [of _ res] exI [of _ r'] conjI)
qed

end
